theory Spec2Isabelle
  imports Main "HOL-Library.Multiset" "HOL-Library.Product_Lexorder"
begin

section \<open>Python exceptions, state passing and list primitives\<close>

text \<open>
  The library is Python. A method mutates its object and either returns a value or raises;
  a raise keeps whatever mutation happened before it. A method is therefore a function from
  the object's state to a result (\<open>Inl\<close> the exception, \<open>Inr\<close> the returned value) paired
  with the state the call leaves behind. The exceptions are Python's built-in classes with
  the message the source passes.
\<close>

datatype error = IndexError string | ValueError string | TypeError string | AttributeError string

type_synonym ('s, 'r) prog = "'s \<Rightarrow> (error + 'r) \<times> 's"

definition pret :: "'r \<Rightarrow> ('s, 'r) prog" where
  "pret x = (\<lambda>s. (Inr x, s))"

definition praise :: "error \<Rightarrow> ('s, 'r) prog" where
  "praise e = (\<lambda>s. (Inl e, s))"

definition pbind :: "('s, 'a) prog \<Rightarrow> ('a \<Rightarrow> ('s, 'b) prog) \<Rightarrow> ('s, 'b) prog" where
  "pbind m f = (\<lambda>s. case m s of (Inl e, s') \<Rightarrow> (Inl e, s') | (Inr x, s') \<Rightarrow> f x s')"

definition pthen :: "('s, 'a) prog \<Rightarrow> ('s, 'b) prog \<Rightarrow> ('s, 'b) prog" where
  "pthen m n = pbind m (\<lambda>_. n)"

definition pget :: "('s \<Rightarrow> 'r) \<Rightarrow> ('s, 'r) prog" where
  "pget f = (\<lambda>s. (Inr (f s), s))"

definition pmodify :: "('s \<Rightarrow> 's) \<Rightarrow> ('s, unit) prog" where
  "pmodify f = (\<lambda>s. (Inr (), f s))"

text \<open>
  \<open>try: m except IndexError: h\<close>: the handler runs in the state the raise left.
\<close>

definition pcatch_IndexError :: "('s, 'r) prog \<Rightarrow> ('s, 'r) prog \<Rightarrow> ('s, 'r) prog" where
  "pcatch_IndexError m h =
     (\<lambda>s. case m s of (Inl (IndexError msg), s') \<Rightarrow> h s' | other \<Rightarrow> other)"

text \<open>
  \<open>for i in is: acc = body(i, acc)\<close> with the loop's local variables threaded as \<open>acc\<close>;
  the index list is computed once, before the first iteration, as Python's \<open>range\<close> is.
\<close>

fun pfor :: "'i list \<Rightarrow> ('i \<Rightarrow> 'acc \<Rightarrow> ('s, 'acc) prog) \<Rightarrow> 'acc \<Rightarrow> ('s, 'acc) prog" where
  "pfor [] body acc = pret acc"
| "pfor (i # rest) body acc = pbind (body i acc) (\<lambda>acc'. pfor rest body acc')"

lemma pbind_apply:
  "pbind m f s = (case m s of (Inl e, s') \<Rightarrow> (Inl e, s') | (Inr x, s') \<Rightarrow> f x s')"
  by (simp add: pbind_def)

lemma pthen_apply:
  "pthen m n s = (case m s of (Inl e, s') \<Rightarrow> (Inl e, s') | (Inr x, s') \<Rightarrow> n s')"
  by (simp add: pthen_def pbind_def)

lemma pret_apply: "pret x s = (Inr x, s)"
  by (simp add: pret_def)

lemma praise_apply: "praise e s = (Inl e, s)"
  by (simp add: praise_def)

lemma pmodify_apply: "pmodify f s = (Inr (), f s)"
  by (simp add: pmodify_def)

lemma pbind_Inr: "m s = (Inr x, s') \<Longrightarrow> pbind m f s = f x s'"
  by (simp add: pbind_def)

lemma pbind_Inl: "m s = (Inl e, s') \<Longrightarrow> pbind m f s = (Inl e, s')"
  by (simp add: pbind_def)

lemma pthen_Inr: "m s = (Inr x, s') \<Longrightarrow> pthen m n s = n s'"
  by (simp add: pthen_def pbind_def)

lemma pthen_Inl: "m s = (Inl e, s') \<Longrightarrow> pthen m n s = (Inl e, s')"
  by (simp add: pthen_def pbind_def)

lemma pfor_Cons_Inr:
  "body i acc s = (Inr acc', s') \<Longrightarrow> pfor (i # rest) body acc s = pfor rest body acc' s'"
  by (simp add: pbind_def)

lemma pfor_Cons_Inl:
  "body i acc s = (Inl e, s') \<Longrightarrow> pfor (i # rest) body acc s = (Inl e, s')"
  by (simp add: pbind_def)

text \<open>\<open>range(a, b)\<close> and \<open>range(a, b, -1)\<close> over Python's unbounded integers.\<close>

definition py_range :: "int \<Rightarrow> int \<Rightarrow> int list" where
  "py_range a b = [a..b - 1]"

definition py_range_down :: "int \<Rightarrow> int \<Rightarrow> int list" where
  "py_range_down a b = rev [b + 1..a]"

text \<open>
  Python list indexing: a negative index counts from the end, and an index outside
  \<open>[-len, len)\<close> raises IndexError.
\<close>

definition py_index :: "'a list \<Rightarrow> int \<Rightarrow> nat option" where
  "py_index xs i =
     (if 0 \<le> i \<and> i < int (length xs) then Some (nat i)
      else if - int (length xs) \<le> i \<and> i < 0 then Some (nat (int (length xs) + i))
      else None)"

definition getitem :: "'a list \<Rightarrow> int \<Rightarrow> error + 'a" where
  "getitem xs i =
     (case py_index xs i of
        None \<Rightarrow> Inl (IndexError ''list index out of range'')
      | Some j \<Rightarrow> Inr (xs ! j))"

definition setitem :: "'a list \<Rightarrow> int \<Rightarrow> 'a \<Rightarrow> error + 'a list" where
  "setitem xs i x =
     (case py_index xs i of
        None \<Rightarrow> Inl (IndexError ''list assignment index out of range'')
      | Some j \<Rightarrow> Inr (xs[j := x]))"

section \<open>Vector (vector.py)\<close>

text \<open>
  The three attributes of a \<open>Vector\<close>. A slot holds any Python value, \<open>None\<close> included
  (the constructor fills the buffer with it), so a slot is an \<open>'a option\<close> whose \<open>None\<close> is
  Python's \<open>None\<close>. \<open>elementCount\<close> and \<open>capacityIncrement\<close> are Python integers.
\<close>

record 'a Vector =
  capacityIncrement :: int
  elementData :: "'a option list"
  elementCount :: int

text \<open>
  \<open>Vector.__init__(self, *args)\<close> is an \<open>if\<close>/\<open>elif\<close> chain of four branches with no
  \<open>else\<close>. \<open>Vector_args\<close> are the four argument shapes that select a branch (no argument,
  one \<open>int\<close>, one \<open>Collection\<close>, two \<open>int\<close>s) and \<open>Vector_init\<close> gives the attributes that
  branch sets. Every other argument tuple is handled by \<open>Vector_construct\<close> below.
\<close>

datatype 'a Vector_args =
    NoArgs
  | InitialCapacity int
  | FromCollection "'a option list"
  | CapacityAndIncrement int int

fun Vector_init :: "'a Vector_args \<Rightarrow> 'a Vector" where
  "Vector_init NoArgs =
     \<lparr>capacityIncrement = 0, elementData = replicate 10 None, elementCount = 0\<rparr>"
| "Vector_init (InitialCapacity n) =
     \<lparr>capacityIncrement = 0, elementData = replicate (nat n) None, elementCount = 0\<rparr>"
| "Vector_init (FromCollection c) =
     \<lparr>capacityIncrement = 0, elementData = c, elementCount = int (length c)\<rparr>"
| "Vector_init (CapacityAndIncrement initialCapacity inc) =
     \<lparr>capacityIncrement = inc, elementData = replicate (nat initialCapacity) None,
      elementCount = 0\<rparr>"

text \<open>
  The call \<open>Vector(*args)\<close> on any argument tuple. \<open>OtherArgs\<close> stands for every tuple that
  selects no branch of \<open>__init__\<close>: a single plain \<open>list\<close>, \<open>tuple\<close>, \<open>str\<close> or \<open>float\<close>
  (none of them is a \<open>Collection\<close>), two arguments that are not both \<open>int\<close>s, three
  arguments or more. For these \<open>__init__\<close> runs no assignment and returns, so the caller gets
  an instance with none of the three attributes: \<open>None\<close> below. Reading an attribute such an
  instance does not have raises AttributeError; \<open>size()\<close> is \<open>return self.elementCount\<close>.
\<close>

datatype 'a Vector_argv = Accepted "'a Vector_args" | OtherArgs

definition Vector_construct :: "'a Vector_argv \<Rightarrow> 'a Vector option" where
  "Vector_construct argv =
     (case argv of Accepted args \<Rightarrow> Some (Vector_init args) | OtherArgs \<Rightarrow> None)"

definition no_attribute :: "string \<Rightarrow> string \<Rightarrow> error" where
  "no_attribute cls name =
     AttributeError ([CHR 0x27] @ cls @ [CHR 0x27] @ '' object has no attribute ''
                     @ [CHR 0x27] @ name @ [CHR 0x27])"

definition Vector_size_instance :: "'a Vector option \<Rightarrow> error + int" where
  "Vector_size_instance inst =
     (case inst of
        None \<Rightarrow> Inl (no_attribute ''Vector'' ''elementCount'')
      | Some v \<Rightarrow> Inr (elementCount v))"

text \<open>\<open>self.elementData[i]\<close> read and written in place.\<close>

definition read_data :: "int \<Rightarrow> ('a Vector, 'a option) prog" where
  "read_data i = (\<lambda>v. (getitem (elementData v) i, v))"

definition write_data :: "int \<Rightarrow> 'a option \<Rightarrow> ('a Vector, unit) prog" where
  "write_data i x =
     (\<lambda>v. case setitem (elementData v) i x of
            Inl e \<Rightarrow> (Inl e, v)
          | Inr d \<Rightarrow> (Inr (), v\<lparr>elementData := d\<rparr>))"

lemma read_data_apply: "read_data i v = (getitem (elementData v) i, v)"
  by (simp add: read_data_def)

lemma write_data_apply:
  "write_data i x v =
     (case setitem (elementData v) i x of
        Inl e \<Rightarrow> (Inl e, v)
      | Inr d \<Rightarrow> (Inr (), v\<lparr>elementData := d\<rparr>))"
  by (simp add: write_data_def)

lemmas prog_simps = pbind_apply pthen_apply pret_apply praise_apply pmodify_apply
  read_data_apply write_data_apply

definition capacity :: "'a Vector \<Rightarrow> int" where
  "capacity v = int (length (elementData v))"

text \<open>
  \<open>ensureCapacity\<close>: the copy loop fills a fresh local list, which replaces
  \<open>self.elementData\<close> only after the loop; a raise inside the loop leaves the vector as
  it was.
\<close>

fun copy_loop :: "int list \<Rightarrow> 'b list \<Rightarrow> 'b list \<Rightarrow> error + 'b list" where
  "copy_loop [] src new_data = Inr new_data"
| "copy_loop (i # rest) src new_data =
     (case getitem src i of
        Inl e \<Rightarrow> Inl e
      | Inr x \<Rightarrow>
          (case setitem new_data i x of
             Inl e \<Rightarrow> Inl e
           | Inr new_data' \<Rightarrow> copy_loop rest src new_data'))"

definition Vector_ensureCapacity :: "int \<Rightarrow> ('a Vector, unit) prog" where
  "Vector_ensureCapacity min_capacity =
     (\<lambda>v. if min_capacity > capacity v then
            let new_capacity =
                  (if capacityIncrement v > 0 then capacity v + capacityIncrement v
                   else capacity v * 2);
                new_capacity' =
                  (if new_capacity < min_capacity then min_capacity else new_capacity)
            in (case copy_loop (py_range 0 (elementCount v)) (elementData v)
                       (replicate (nat new_capacity') None) of
                  Inl e \<Rightarrow> (Inl e, v)
                | Inr new_data \<Rightarrow> (Inr (), v\<lparr>elementData := new_data\<rparr>))
          else (Inr (), v))"

definition Vector_addElement :: "'a option \<Rightarrow> ('a Vector, unit) prog" where
  "Vector_addElement obj =
     pthen (\<lambda>v. (if elementCount v = capacity v
                  then Vector_ensureCapacity
                         (capacity v + (if capacityIncrement v > 0 then capacityIncrement v
                                        else capacity v))
                  else pret ()) v)
    (pthen (\<lambda>v. write_data (elementCount v) obj v)
           (pmodify (\<lambda>v. v\<lparr>elementCount := elementCount v + 1\<rparr>)))"

text \<open>
  \<open>add(*args)\<close> dispatches on the number of arguments: \<open>Vector_add\<close> is the one-argument branch
  (append, returns True), \<open>Vector_add_index\<close> the two-argument branch (insert at an index, no
  return value).
\<close>

definition Vector_add :: "'a option \<Rightarrow> ('a Vector, bool) prog" where
  "Vector_add element =
     pthen (\<lambda>v. Vector_ensureCapacity (elementCount v + 1) v)
    (pthen (\<lambda>v. write_data (elementCount v) element v)
    (pthen (pmodify (\<lambda>v. v\<lparr>elementCount := elementCount v + 1\<rparr>))
           (pret True)))"

definition Vector_add_index :: "int \<Rightarrow> 'a option \<Rightarrow> ('a Vector, unit) prog" where
  "Vector_add_index index element =
     (\<lambda>v. if index > elementCount v \<or> index < 0
           then praise (IndexError ''Index out of bounds'') v
           else
             pthen (Vector_ensureCapacity (elementCount v + 1))
            (pthen (\<lambda>v. pfor (py_range_down (elementCount v) index)
                          (\<lambda>i _. pbind (read_data (i - 1)) (\<lambda>x. write_data i x)) () v)
            (pthen (write_data index element)
                   (pmodify (\<lambda>v. v\<lparr>elementCount := elementCount v + 1\<rparr>)))) v)"

definition Vector_get :: "int \<Rightarrow> ('a Vector, 'a option) prog" where
  "Vector_get index =
     (\<lambda>v. if index < 0 \<or> index \<ge> elementCount v
           then praise (IndexError ''Index out of bounds.'') v
           else read_data index v)"

definition Vector_size :: "'a Vector \<Rightarrow> int" where
  "Vector_size v = elementCount v"

definition Vector_isEmpty :: "'a Vector \<Rightarrow> bool" where
  "Vector_isEmpty v = (elementCount v = 0)"

text \<open>
  \<open>__removeAt__\<close>: the bounds of the shifting loop and the slot cleared after it are
  computed from \<open>elementCount\<close> before it is decremented.
\<close>

definition Vector_removeAt :: "int \<Rightarrow> ('a Vector, 'a option) prog" where
  "Vector_removeAt index =
     (\<lambda>v. if index < 0 \<or> index \<ge> elementCount v
           then praise (IndexError ''Index out of bounds.'') v
           else
             pbind (read_data index) (\<lambda>removed_element.
             pthen (\<lambda>v. pfor (py_range index (elementCount v - 1))
                          (\<lambda>i _. pbind (read_data (i + 1)) (\<lambda>x. write_data i x)) () v)
            (pthen (\<lambda>v. write_data (elementCount v - 1) None v)
            (pthen (pmodify (\<lambda>v. v\<lparr>elementCount := elementCount v - 1\<rparr>))
                   (pret removed_element)))) v)"

text \<open>
  \<open>retainAll\<close>: \<open>range(self.elementCount)\<close> is evaluated once with the count at entry;
  membership in the collection \<open>c\<close> is Python's \<open>in\<close> over its elements.
\<close>

definition Vector_retainAll :: "'a option list \<Rightarrow> ('a Vector, bool) prog" where
  "Vector_retainAll c =
     (\<lambda>v. pfor (py_range 0 (elementCount v))
             (\<lambda>i removed.
                pbind (read_data i) (\<lambda>x.
                  if x \<notin> set c then pthen (Vector_removeAt i) (pret True) else pret removed))
             False v)"

text \<open>\<open>toArray()\<close>: the live slots, \<open>self.elementData[:self.elementCount]\<close>.\<close>

definition py_slice_to :: "'b list \<Rightarrow> int \<Rightarrow> 'b list" where
  "py_slice_to xs n = (if n < 0 then take (nat (int (length xs) + n)) xs else take (nat n) xs)"

definition Vector_toArray :: "'a Vector \<Rightarrow> 'a option list" where
  "Vector_toArray v = py_slice_to (elementData v) (elementCount v)"

text \<open>
  \<open>indexOf\<close> and \<open>lastIndexOf\<close>: a scan that returns from inside the loop at the first
  match, and \<open>-1\<close> after it.
\<close>

fun index_scan :: "int list \<Rightarrow> 'a option \<Rightarrow> ('a Vector, int) prog" where
  "index_scan [] obj = pret (- 1)"
| "index_scan (i # rest) obj =
     pbind (read_data i) (\<lambda>x. if x = obj then pret i else index_scan rest obj)"

definition Vector_indexOf :: "'a option \<Rightarrow> ('a Vector, int) prog" where
  "Vector_indexOf obj = (\<lambda>v. index_scan (py_range 0 (elementCount v)) obj v)"

definition Vector_lastIndexOf :: "'a option \<Rightarrow> ('a Vector, int) prog" where
  "Vector_lastIndexOf obj = (\<lambda>v. index_scan (py_range_down (elementCount v - 1) (- 1)) obj v)"

text \<open>
  \<open>removeElement\<close>: the whole body sits in \<open>try ... except IndexError: return False\<close>.
\<close>

definition Vector_removeElement :: "'a option \<Rightarrow> ('a Vector, bool) prog" where
  "Vector_removeElement element =
     pcatch_IndexError
       (pbind (Vector_indexOf element) (\<lambda>index.
          if index \<noteq> - 1 then pthen (Vector_removeAt index) (pret True) else pret False))
       (pret False)"

text \<open>
  \<open>remove(arg)\<close> dispatches on \<open>isinstance(arg, int)\<close>: an integer argument is an index
  (\<open>Vector_remove_int\<close>), anything else a value (\<open>Vector_remove_obj\<close>).
\<close>

definition Vector_remove_int :: "int \<Rightarrow> ('a Vector, 'a option) prog" where
  "Vector_remove_int arg = Vector_removeAt arg"

definition Vector_remove_obj :: "'a option \<Rightarrow> ('a Vector, bool) prog" where
  "Vector_remove_obj arg = Vector_removeElement arg"

definition Vector_removeElementAt :: "int \<Rightarrow> ('a Vector, 'a option) prog" where
  "Vector_removeElementAt index = Vector_removeAt index"

definition Vector_clear :: "('a Vector, unit) prog" where
  "Vector_clear =
     pmodify (\<lambda>v. v\<lparr>elementData := replicate (length (elementData v)) None,
                    elementCount := 0\<rparr>)"

definition Vector_removeAllElements :: "('a Vector, unit) prog" where
  "Vector_removeAllElements = Vector_clear"

definition Vector_trimToSize :: "('a Vector, unit) prog" where
  "Vector_trimToSize =
     (\<lambda>v. if capacity v > elementCount v
           then (Inr (), v\<lparr>elementData := py_slice_to (elementData v) (elementCount v)\<rparr>)
           else (Inr (), v))"

definition Vector_setSize :: "int \<Rightarrow> ('a Vector, unit) prog" where
  "Vector_setSize newSize =
     (\<lambda>v. if newSize < 0 then praise (ValueError ''New size must be non-negative.'') v
           else
             pthen (\<lambda>v. if newSize > capacity v then Vector_ensureCapacity newSize v
                         else if newSize < elementCount v
                         then pfor (py_range newSize (elementCount v))
                                (\<lambda>i _. write_data i None) () v
                         else pret () v)
                   (pmodify (\<lambda>v. v\<lparr>elementCount := newSize\<rparr>)) v)"

definition Vector_setElementAt :: "'a option \<Rightarrow> int \<Rightarrow> ('a Vector, unit) prog" where
  "Vector_setElementAt val index =
     (\<lambda>v. if index < 0 then praise (IndexError ''Index out of bounds.'') v
           else
             pthen (\<lambda>v. if index \<ge> capacity v then Vector_ensureCapacity (index + 1) v
                         else pret () v)
            (pthen (\<lambda>v. if index \<ge> elementCount v
                         then pmodify (\<lambda>v. v\<lparr>elementCount := index + 1\<rparr>) v
                         else pret () v)
                   (write_data index val)) v)"

definition Vector_set :: "int \<Rightarrow> 'a option \<Rightarrow> ('a Vector, 'a option) prog" where
  "Vector_set index element =
     (\<lambda>v. if index < 0 \<or> index \<ge> elementCount v
           then praise (IndexError ''Index out of bounds.'') v
           else pbind (read_data index) (\<lambda>old_value.
                pthen (write_data index element) (pret old_value)) v)"

text \<open>
  \<open>removeAll(c)\<close>: for each element of \<open>c\<close>, \<open>while self.removeElement(elem): removed = True\<close>.
  The loop ends because a \<open>removeElement\<close> that returns True has decremented a positive
  \<open>elementCount\<close>.
\<close>

lemma pfor_preserves:
  assumes "\<And>i acc s. I s \<Longrightarrow> I (snd (body i acc s))" "I s"
  shows "I (snd (pfor xs body acc s))"
  using assms(2)
proof (induction xs arbitrary: acc s)
  case Nil
  then show ?case by (simp add: pret_def)
next
  case (Cons i xs)
  have "I (snd (body i acc s))" using assms(1) Cons.prems by blast
  then show ?case using Cons.IH
    by (cases "body i acc s") (auto simp: pbind_def split: sum.splits)
qed

lemma index_scan_state: "snd (index_scan xs obj v) = v"
  by (induction xs) (auto simp: pret_def pbind_def read_data_def split: sum.splits)

lemma move_preserves_count:
  "elementCount (snd (pbind (read_data j) (\<lambda>x. write_data i x) v)) = elementCount v"
  by (auto simp: pbind_def read_data_def write_data_def split: sum.splits)

lemma Vector_removeAt_success:
  assumes "Vector_removeAt index v = (Inr r, v')"
  shows "0 \<le> index \<and> index < elementCount v \<and> elementCount v' = elementCount v - 1"
proof -
  have guard: "0 \<le> index \<and> index < elementCount v"
    using assms by (auto simp: Vector_removeAt_def praise_def split: if_splits)
  let ?loop = "pfor (py_range index (elementCount v - 1))
                 (\<lambda>i _. pbind (read_data (i + 1)) (\<lambda>x. write_data i x)) ()"
  have cnt: "elementCount (snd (?loop v)) = elementCount v"
    by (rule pfor_preserves [where I = "\<lambda>s. elementCount s = elementCount v"])
       (simp_all add: move_preserves_count)
  obtain res v1 where l: "?loop v = (res, v1)" by (cases "?loop v")
  with cnt have c1: "elementCount v1 = elementCount v" by simp
  have "elementCount v' = elementCount v - 1"
    using assms guard c1
    by (auto simp: Vector_removeAt_def prog_simps l split: sum.splits if_splits)
  with guard show ?thesis by simp
qed

lemma Vector_removeElement_True:
  assumes "Vector_removeElement elem v = (Inr True, v')"
  shows "0 < elementCount v \<and> elementCount v' = elementCount v - 1"
proof -
  obtain r where s: "index_scan (py_range 0 (elementCount v)) elem v = (r, v)"
    using index_scan_state [of "py_range 0 (elementCount v)" elem v]
    by (cases "index_scan (py_range 0 (elementCount v)) elem v") auto
  from assms s obtain index x where "Vector_removeAt index v = (Inr x, v')"
    by (auto simp: Vector_removeElement_def pcatch_IndexError_def pbind_def pthen_def pret_def
        Vector_indexOf_def split: sum.splits if_splits prod.splits error.splits)
  from Vector_removeAt_success [OF this] show ?thesis by simp
qed

function removeAll_while :: "'a option \<Rightarrow> bool \<Rightarrow> ('a Vector, bool) prog" where
  "removeAll_while elem removed v =
     (case Vector_removeElement elem v of
        (Inl e, v') \<Rightarrow> (Inl e, v')
      | (Inr True, v') \<Rightarrow> removeAll_while elem True v'
      | (Inr False, v') \<Rightarrow> (Inr removed, v'))"
  by pat_completeness auto
termination
  by (relation "measure (\<lambda>(elem, removed, v). nat (elementCount v))")
     (auto dest!: Vector_removeElement_True [OF sym])

definition Vector_removeAll :: "'a option list \<Rightarrow> ('a Vector, bool) prog" where
  "Vector_removeAll c = pfor c (\<lambda>elem removed. removeAll_while elem removed) False"

definition Vector_removeIf :: "('a option \<Rightarrow> bool) \<Rightarrow> ('a Vector, bool) prog" where
  "Vector_removeIf predicate =
     (\<lambda>v. pfor (py_range_down (elementCount v - 1) (- 1))
             (\<lambda>i removed.
                pbind (read_data i) (\<lambda>x.
                  if predicate x then pthen (Vector_removeAt i) (pret True) else pret removed))
             False v)"

definition Vector_replaceAll :: "('a option \<Rightarrow> 'a option) \<Rightarrow> ('a Vector, unit) prog" where
  "Vector_replaceAll operator =
     (\<lambda>v. pfor (py_range 0 (elementCount v))
             (\<lambda>i _. pbind (read_data i) (\<lambda>x. write_data i (operator x))) () v)"

text \<open>
  \<open>sort(c)\<close> assigns \<open>sorted(..., key=c)\<close>, a stable sort by key, to the slice
  \<open>elementData[:elementCount]\<close>.
\<close>

definition py_slice_to_assign :: "'b list \<Rightarrow> int \<Rightarrow> 'b list \<Rightarrow> 'b list" where
  "py_slice_to_assign xs n ys = ys @ drop (length (py_slice_to xs n)) xs"

definition Vector_sort :: "('a option \<Rightarrow> 'k::linorder) \<Rightarrow> ('a Vector, unit) prog" where
  "Vector_sort c =
     pmodify (\<lambda>v. v\<lparr>elementData :=
                       py_slice_to_assign (elementData v) (elementCount v)
                         (sort_key c (py_slice_to (elementData v) (elementCount v)))\<rparr>)"

text \<open>
  \<open>addAll(*args)\<close>: \<open>Vector_addAll\<close> is the one-argument branch, \<open>Vector_addAll_index\<close> the
  two-argument one. The collection argument is one of three kinds. A value that is not a
  \<open>Collection\<close> and has \<open>__iter__\<close> (a list, a tuple, a generator) is first turned into a
  list. A value that is neither raises TypeError. A \<open>Collection\<close> of this library is kept
  as it is and \<open>len(collection)\<close> is then called on it: no class of the library defines
  \<open>__len__\<close>, so this raises TypeError (the message names the argument's class), in the
  two-argument branch after the index check. No attribute has been written by then.
\<close>

datatype 'a addAll_arg =
    IterableArg "'a option list"
  | CollectionArg string "'a option list"
  | NotIterable

definition no_len :: "string \<Rightarrow> error" where
  "no_len cls = TypeError (''object of type '' @ [CHR 0x27] @ cls @ [CHR 0x27] @ '' has no len()'')"

definition Vector_addAll :: "'a addAll_arg \<Rightarrow> ('a Vector, bool) prog" where
  "Vector_addAll arg =
     (case arg of
        NotIterable \<Rightarrow> praise (TypeError ''Argument must be an iterable or of type Collection'')
      | CollectionArg cls c \<Rightarrow> praise (no_len cls)
      | IterableArg collection \<Rightarrow>
          (let newElementCount = int (length collection) in
           if newElementCount = 0 then pret False
           else
             pthen (\<lambda>v. Vector_ensureCapacity (elementCount v + newElementCount) v)
            (pthen (pfor collection
                      (\<lambda>element _.
                         pthen (\<lambda>v. write_data (elementCount v) element v)
                               (pmodify (\<lambda>v. v\<lparr>elementCount := elementCount v + 1\<rparr>))) ())
                   (pret True))))"

definition Vector_addAll_index :: "int \<Rightarrow> 'a addAll_arg \<Rightarrow> ('a Vector, bool) prog" where
  "Vector_addAll_index index arg =
     (\<lambda>v. case arg of
            NotIterable \<Rightarrow>
              praise (TypeError ''Argument must be an iterable or of type Collection'') v
          | CollectionArg cls c \<Rightarrow>
              if index < 0 \<or> index > elementCount v
              then praise (IndexError ''Index out of bounds'') v
              else praise (no_len cls) v
          | IterableArg collection \<Rightarrow>
              if index < 0 \<or> index > elementCount v
              then praise (IndexError ''Index out of bounds'') v
              else
                (let newElementCount = int (length collection) in
                 if newElementCount = 0 then pret False v
                 else
                   pthen (Vector_ensureCapacity (elementCount v + newElementCount))
                  (pthen (\<lambda>v. pfor (py_range_down (elementCount v - 1) (index - 1))
                                (\<lambda>i _. pbind (read_data i)
                                          (\<lambda>x. write_data (i + newElementCount) x)) () v)
                  (pthen (pbind (pfor collection
                                  (\<lambda>element index'.
                                     pthen (write_data index' element) (pret (index' + 1))) index)
                                (\<lambda>_. pret ()))
                  (pthen (pmodify (\<lambda>v. v\<lparr>elementCount := elementCount v + newElementCount\<rparr>))
                         (pret True)))) v))"

section \<open>Stack (stack.py)\<close>

text \<open>
  \<open>Stack\<close> extends \<open>Vector\<close> and adds no attribute; its constructor is \<open>Vector()\<close>.
\<close>

definition Stack_init :: "'a Vector" where
  "Stack_init = Vector_init NoArgs"

definition Stack_empty :: "'a Vector \<Rightarrow> bool" where
  "Stack_empty v = (elementCount v = 0)"

definition Stack_peek :: "('a Vector, 'a option) prog" where
  "Stack_peek =
     (\<lambda>v. if Stack_empty v then praise (IndexError ''peek from empty stack'') v
           else read_data (elementCount v - 1) v)"

definition Stack_pop :: "('a Vector, 'a option) prog" where
  "Stack_pop =
     (\<lambda>v. if Stack_empty v then praise (IndexError ''pop from empty stack'') v
           else pbind (read_data (elementCount v - 1)) (\<lambda>element.
                pthen (\<lambda>v. Vector_removeElementAt (elementCount v - 1) v)
                      (pret element)) v)"

definition Stack_push :: "'a option \<Rightarrow> ('a Vector, 'a option) prog" where
  "Stack_push item = pthen (Vector_addElement item) (pret item)"

definition Stack_search :: "'a option \<Rightarrow> ('a Vector, int) prog" where
  "Stack_search obj =
     pbind (Vector_lastIndexOf obj) (\<lambda>index.
       if index = - 1 then pret (- 1) else (\<lambda>v. pret (elementCount v - index) v))"

section \<open>ArrayDeque (arraydeque.py)\<close>

text \<open>
  The deque keeps its elements in the Python list \<open>_deque\<close>; \<open>_capacity\<close> is set only by
  the integer branch of the constructor and never read again.
\<close>

record 'a ArrayDeque =
  deque :: "'a option list"
  capacity_attr :: "int option"

datatype 'a ArrayDeque_args =
    InitialNone
  | InitialCollection "'a option list"
  | InitialInt int

definition ArrayDeque_add :: "'a option \<Rightarrow> ('a ArrayDeque, bool) prog" where
  "ArrayDeque_add e = pthen (pmodify (\<lambda>d. d\<lparr>deque := deque d @ [e]\<rparr>)) (pret True)"

fun ArrayDeque_init :: "'a ArrayDeque_args \<Rightarrow> 'a ArrayDeque" where
  "ArrayDeque_init InitialNone = \<lparr>deque = [], capacity_attr = None\<rparr>"
| "ArrayDeque_init (InitialCollection c) =
     snd (pfor c (\<lambda>item _. pthen (ArrayDeque_add item) (pret ())) ()
            \<lparr>deque = [], capacity_attr = None\<rparr>)"
| "ArrayDeque_init (InitialInt initial) =
     \<lparr>deque = replicate (nat initial) None, capacity_attr = Some initial\<rparr>"

definition ArrayDeque_size :: "'a ArrayDeque \<Rightarrow> int" where
  "ArrayDeque_size d = int (length (deque d))"

definition ArrayDeque_isEmpty :: "'a ArrayDeque \<Rightarrow> bool" where
  "ArrayDeque_isEmpty d = (length (deque d) = 0)"

definition ArrayDeque_contains :: "'a option \<Rightarrow> 'a ArrayDeque \<Rightarrow> bool" where
  "ArrayDeque_contains obj d = (obj \<in> set (deque d))"

definition ArrayDeque_getFirst :: "('a ArrayDeque, 'a option) prog" where
  "ArrayDeque_getFirst =
     (\<lambda>d. if deque d = [] then praise (IndexError ''Deque is empty'') d
           else pret (deque d ! 0) d)"

definition ArrayDeque_getLast :: "('a ArrayDeque, 'a option) prog" where
  "ArrayDeque_getLast =
     (\<lambda>d. if deque d = [] then praise (IndexError ''Deque is empty'') d
           else pret (last (deque d)) d)"

definition ArrayDeque_element :: "('a ArrayDeque, 'a option) prog" where
  "ArrayDeque_element = ArrayDeque_getFirst"

definition ArrayDeque_peekFirst :: "('a ArrayDeque, 'a option) prog" where
  "ArrayDeque_peekFirst = (\<lambda>d. if deque d \<noteq> [] then pret (deque d ! 0) d else pret None d)"

definition ArrayDeque_peekLast :: "('a ArrayDeque, 'a option) prog" where
  "ArrayDeque_peekLast = (\<lambda>d. if deque d \<noteq> [] then pret (last (deque d)) d else pret None d)"

definition ArrayDeque_peek :: "('a ArrayDeque, 'a option) prog" where
  "ArrayDeque_peek = ArrayDeque_peekFirst"

definition ArrayDeque_pollFirst :: "('a ArrayDeque, 'a option) prog" where
  "ArrayDeque_pollFirst =
     (\<lambda>d. if deque d \<noteq> [] then (Inr (deque d ! 0), d\<lparr>deque := tl (deque d)\<rparr>)
           else pret None d)"

definition ArrayDeque_pollLast :: "('a ArrayDeque, 'a option) prog" where
  "ArrayDeque_pollLast =
     (\<lambda>d. if deque d \<noteq> [] then (Inr (last (deque d)), d\<lparr>deque := butlast (deque d)\<rparr>)
           else pret None d)"

definition ArrayDeque_poll :: "('a ArrayDeque, 'a option) prog" where
  "ArrayDeque_poll = ArrayDeque_pollFirst"

section \<open>heapq, the standard-library heap the priority queue calls\<close>

text \<open>
  \<open>priorityqueue.py\<close> imports \<open>heappush\<close>, \<open>heappop\<close> and \<open>heapify\<close> from Python's
  \<open>heapq\<close>. They are modelled after CPython's \<open>Lib/heapq.py\<close>, whose only comparison is
  \<open><\<close>: \<open>_siftdown\<close> moves the item at \<open>pos\<close> towards the root while it is smaller than
  its parent, \<open>_siftup\<close> moves the smaller child up until a leaf is reached and then sifts
  the displaced item down from there. The positions these functions are called with lie
  inside the list.
\<close>

function siftdown_while :: "'b::linorder \<Rightarrow> nat \<Rightarrow> 'b list \<Rightarrow> nat \<Rightarrow> 'b list \<times> nat" where
  "siftdown_while newitem startpos heap pos =
     (if pos > startpos then
        let parentpos = (pos - 1) div 2;
            parent = heap ! parentpos
        in if newitem < parent
           then siftdown_while newitem startpos (heap[pos := parent]) parentpos
           else (heap, pos)
      else (heap, pos))"
  by pat_completeness auto
termination
  by (relation "measure (\<lambda>(newitem, startpos, heap, pos). pos)") auto

definition siftdown :: "'b::linorder list \<Rightarrow> nat \<Rightarrow> nat \<Rightarrow> 'b list" where
  "siftdown heap startpos pos =
     (let newitem = heap ! pos;
          (heap', pos') = siftdown_while newitem startpos heap pos
      in heap'[pos' := newitem])"

function siftup_while :: "'b::linorder list \<Rightarrow> nat \<Rightarrow> 'b list \<times> nat" where
  "siftup_while heap pos =
     (let endpos = length heap;
          childpos = 2 * pos + 1
      in if childpos < endpos then
           let rightpos = childpos + 1;
               childpos' = (if rightpos < endpos \<and> \<not> heap ! childpos < heap ! rightpos
                            then rightpos else childpos)
           in siftup_while (heap[pos := heap ! childpos']) childpos'
         else (heap, pos))"
  by pat_completeness auto
termination
  by (relation "measure (\<lambda>(heap, pos). length heap - pos)") (auto simp: Let_def)

definition siftup :: "'b::linorder list \<Rightarrow> nat \<Rightarrow> 'b list" where
  "siftup heap pos =
     (let newitem = heap ! pos;
          (heap', pos') = siftup_while heap pos
      in siftdown (heap'[pos' := newitem]) pos pos')"

definition heappush :: "'b::linorder list \<Rightarrow> 'b \<Rightarrow> 'b list" where
  "heappush heap item = siftdown (heap @ [item]) 0 (length (heap @ [item]) - 1)"

text \<open>\<open>heappop\<close>: \<open>heap.pop()\<close> raises IndexError on an empty list.\<close>

definition heappop :: "'b::linorder list \<Rightarrow> error + ('b \<times> 'b list)" where
  "heappop heap =
     (if heap = [] then Inl (IndexError ''pop from empty list'')
      else
        let lastelt = last heap;
            heap' = butlast heap
        in if heap' \<noteq> [] then Inr (heap' ! 0, siftup (heap'[0 := lastelt]) 0)
           else Inr (lastelt, heap'))"

definition heapify :: "'b::linorder list \<Rightarrow> 'b list" where
  "heapify x = foldl siftup x (rev [0..<length x div 2])"

section \<open>PriorityQueue (priorityqueue.py)\<close>

text \<open>
  \<open>comparator\<close> is assigned once, by the constructor, and \<open>add\<close> is the only method that
  puts something into \<open>_heap\<close>: the element itself when no comparator is set, the pair
  \<open>(comparator(e), e)\<close> otherwise. A queue is therefore one of two shapes, a heap of
  elements or a comparator with a heap of pairs. Elements and keys are of linearly
  ordered types; pairs compare as Python tuples do, first component first.
\<close>

datatype ('a, 'k) PriorityQueue =
    Natural "'a list"
  | Keyed "'a \<Rightarrow> 'k" "('k \<times> 'a) list"

text \<open>
  The argument of \<open>remove\<close> and \<open>contains\<close> is compared with the entries of \<open>_heap\<close> by
  \<open>==\<close>; it is any Python value, an element or a pair. An element is never equal to a pair
  that holds it.
\<close>

datatype ('a, 'k) pyobj = Elem 'a | Tuple 'k 'a

definition PriorityQueue_add :: "'a::linorder \<Rightarrow> (('a, 'k::linorder) PriorityQueue, bool) prog" where
  "PriorityQueue_add e =
     (\<lambda>q. case q of
            Keyed comparator heap \<Rightarrow> (Inr True, Keyed comparator (heappush heap (comparator e, e)))
          | Natural heap \<Rightarrow> (Inr True, Natural (heappush heap e)))"


text \<open>
  The constructor. \<open>initial\<close> is \<open>None\<close> (the default), or the items a \<open>Collection\<close> or a
  list yields, added one by one. Any other falsy value behaves as \<open>None\<close>; any other
  truthy value raises TypeError and no queue is built. \<open>initial_capacity\<close> is not used.
\<close>

definition PriorityQueue_init ::
  "'a::linorder list option \<Rightarrow> ('a \<Rightarrow> 'k::linorder) option \<Rightarrow> ('a, 'k) PriorityQueue" where
  "PriorityQueue_init initial comparator =
     (let empty_queue = (case comparator of None \<Rightarrow> Natural [] | Some c \<Rightarrow> Keyed c [])
      in case initial of
           None \<Rightarrow> empty_queue
         | Some items \<Rightarrow>
             snd (pfor items (\<lambda>item _. pthen (PriorityQueue_add item) (pret ())) ()
                    empty_queue))"

definition PriorityQueue_size :: "('a, 'k) PriorityQueue \<Rightarrow> int" where
  "PriorityQueue_size q =
     (case q of Natural heap \<Rightarrow> int (length heap) | Keyed comparator heap \<Rightarrow> int (length heap))"

definition PriorityQueue_isEmpty :: "('a, 'k) PriorityQueue \<Rightarrow> bool" where
  "PriorityQueue_isEmpty q =
     (case q of Natural heap \<Rightarrow> length heap = 0 | Keyed comparator heap \<Rightarrow> length heap = 0)"

definition PriorityQueue_peek :: "(('a, 'k) PriorityQueue, 'a option) prog" where
  "PriorityQueue_peek =
     (\<lambda>q. if PriorityQueue_isEmpty q then pret None q
           else (case q of
                   Keyed comparator heap \<Rightarrow> pret (Some (snd (heap ! 0))) q
                 | Natural heap \<Rightarrow> pret (Some (heap ! 0)) q))"

definition PriorityQueue_poll ::
  "(('a::linorder, 'k::linorder) PriorityQueue, 'a option) prog" where
  "PriorityQueue_poll =
     (\<lambda>q. if PriorityQueue_isEmpty q then pret None q
           else (case q of
                   Keyed comparator heap \<Rightarrow>
                     (case heappop heap of
                        Inl e \<Rightarrow> (Inl e, q)
                      | Inr (item, heap') \<Rightarrow> (Inr (Some (snd item)), Keyed comparator heap'))
                 | Natural heap \<Rightarrow>
                     (case heappop heap of
                        Inl e \<Rightarrow> (Inl e, q)
                      | Inr (item, heap') \<Rightarrow> (Inr (Some item), Natural heap'))))"

definition PriorityQueue_element :: "(('a, 'k) PriorityQueue, 'a option) prog" where
  "PriorityQueue_element =
     (\<lambda>q. if PriorityQueue_isEmpty q then praise (IndexError ''Queue is empty'') q
           else PriorityQueue_peek q)"

text \<open>
  \<open>remove(o)\<close>: \<open>self._heap.remove(o)\<close> deletes the first entry equal to \<open>o\<close> or raises
  ValueError, which the method turns into False; after a deletion the list is
  re-heapified.
\<close>

definition PriorityQueue_remove ::
  "('a, 'k) pyobj \<Rightarrow> (('a::linorder, 'k::linorder) PriorityQueue, bool) prog" where
  "PriorityQueue_remove obj =
     (\<lambda>q. case (q, obj) of
            (Natural heap, Elem x) \<Rightarrow>
              if x \<in> set heap then (Inr True, Natural (heapify (remove1 x heap)))
              else (Inr False, q)
          | (Keyed comparator heap, Tuple k x) \<Rightarrow>
              if (k, x) \<in> set heap
              then (Inr True, Keyed comparator (heapify (remove1 (k, x) heap)))
              else (Inr False, q)
          | _ \<Rightarrow> (Inr False, q))"

definition PriorityQueue_contains :: "('a, 'k) pyobj \<Rightarrow> ('a, 'k) PriorityQueue \<Rightarrow> bool" where
  "PriorityQueue_contains obj q =
     (case (q, obj) of
        (Natural heap, Elem x) \<Rightarrow> x \<in> set heap
      | (Keyed comparator heap, Tuple k x) \<Rightarrow> (k, x) \<in> set heap
      | _ \<Rightarrow> False)"

text \<open>The elements a queue holds, in the order of its backing list.\<close>

definition held :: "('a, 'k) PriorityQueue \<Rightarrow> 'a list" where
  "held q = (case q of Natural heap \<Rightarrow> heap | Keyed comparator heap \<Rightarrow> map snd heap)"

section \<open>Reasoning about the state-passing combinators and loops\<close>

lemma py_range_nat: "py_range (int k) (int n) = map int [k..<n]"
proof (induction n)
  case 0
  then show ?case by (simp add: py_range_def)
next
  case (Suc n)
  show ?case
  proof (cases "k \<le> n")
    case True
    then have "[int k..int (Suc n) - 1] = [int k..int n - 1] @ [int n]"
      using upto_rec2 [of "int k" "int n"] by simp
    with Suc True show ?thesis by (simp add: py_range_def)
  next
    case False
    then show ?thesis by (simp add: py_range_def)
  qed
qed

lemma py_range_down_nat: "py_range_down (int a) (int b) = map int (rev [Suc b..<Suc a])"
proof -
  have "[int b + 1..int a] = py_range (int (Suc b)) (int (Suc a))"
    by (simp add: py_range_def add.commute)
  also have "\<dots> = map int [Suc b..<Suc a]"
    by (rule py_range_nat)
  finally show ?thesis
    unfolding py_range_down_def by (simp only: rev_map)
qed

lemma getitem_nat: "getitem xs (int j) = (if j < length xs then Inr (xs ! j) else Inl (IndexError ''list index out of range''))"
  by (simp add: getitem_def py_index_def)

lemma setitem_nat: "setitem xs (int j) x = (if j < length xs then Inr (xs[j := x]) else Inl (IndexError ''list assignment index out of range''))"
  by (simp add: setitem_def py_index_def)

lemma copy_loop_nat:
  "n \<le> length src \<Longrightarrow> n \<le> length dst \<Longrightarrow>
   copy_loop (map int [k..<n]) src dst =
     Inr (map (\<lambda>j. if k \<le> j \<and> j < n then src ! j else dst ! j) [0..<length dst])"
proof (induction "n - k" arbitrary: k dst)
  case 0
  then show ?case by (auto intro!: nth_equalityI)
next
  case (Suc d)
  then have kn: "k < n" by simp
  then have r: "[k..<n] = k # [Suc k..<n]" by (simp add: upt_conv_Cons)
  have ih: "copy_loop (map int [Suc k..<n]) src (dst[k := src ! k]) =
        Inr (map (\<lambda>j. if Suc k \<le> j \<and> j < n then src ! j else dst[k := src ! k] ! j)
               [0..<length (dst[k := src ! k])])"
    using Suc by (intro Suc.hyps(1)) auto
  have eqk: "\<And>x. \<not> Suc k \<le> x \<Longrightarrow> k \<le> x \<Longrightarrow> x = k" by arith
  have "map (\<lambda>j. if Suc k \<le> j \<and> j < n then src ! j else dst[k := src ! k] ! j) [0..<length dst]
      = map (\<lambda>j. if k \<le> j \<and> j < n then src ! j else dst ! j) [0..<length dst]"
    using kn by (auto simp: nth_list_update dest: eqk)
  with ih show ?case using Suc.prems kn
    by (simp add: r getitem_nat setitem_nat)
qed

definition shift_right :: "nat \<Rightarrow> nat \<Rightarrow> 'b list \<Rightarrow> 'b list" where
  "shift_right b a d = map (\<lambda>j. if b < j \<and> j \<le> a then d ! (j - 1) else d ! j) [0..<length d]"

definition shift_left :: "nat \<Rightarrow> nat \<Rightarrow> 'b list \<Rightarrow> 'b list" where
  "shift_left k n d = map (\<lambda>j. if k \<le> j \<and> j < n then d ! (j + 1) else d ! j) [0..<length d]"

lemma shift_right_step:
  assumes "b < a" "a < length d"
  shows "shift_right b (a - 1) (d[a := d ! (a - 1)]) = shift_right b a d"
proof (rule nth_equalityI)
  show "length (shift_right b (a - 1) (d[a := d ! (a - 1)])) = length (shift_right b a d)"
    by (simp add: shift_right_def)
next
  fix i assume "i < length (shift_right b (a - 1) (d[a := d ! (a - 1)]))"
  then have i: "i < length d" by (simp add: shift_right_def)
  consider "i = a" | "i < a" | "a < i" by arith
  then show "shift_right b (a - 1) (d[a := d ! (a - 1)]) ! i = shift_right b a d ! i"
  proof cases
    case 1 with assms i show ?thesis by (auto simp: shift_right_def)
  next
    case 2 with assms i show ?thesis by (auto simp: shift_right_def)
  next
    case 3 with assms i show ?thesis by (auto simp: shift_right_def)
  qed
qed

lemma shift_left_step:
  assumes "k < n" "n < length d"
  shows "shift_left (Suc k) n (d[k := d ! Suc k]) = shift_left k n d"
proof (rule nth_equalityI)
  show "length (shift_left (Suc k) n (d[k := d ! Suc k])) = length (shift_left k n d)"
    by (simp add: shift_left_def)
next
  fix i assume "i < length (shift_left (Suc k) n (d[k := d ! Suc k]))"
  then have i: "i < length d" by (simp add: shift_left_def)
  consider "i = k" | "i < k" | "k < i" by arith
  then show "shift_left (Suc k) n (d[k := d ! Suc k]) ! i = shift_left k n d ! i"
  proof cases
    case 1 with assms i show ?thesis by (simp add: shift_left_def)
  next
    case 2 with assms i show ?thesis by (simp add: shift_left_def)
  next
    case 3 with assms i show ?thesis by (simp add: shift_left_def)
  qed
qed

lemma move_step:
  "i < length (elementData v) \<Longrightarrow> j < length (elementData v) \<Longrightarrow>
   pbind (read_data (int j)) (\<lambda>x. write_data (int i) x) v
   = (Inr (), v\<lparr>elementData := (elementData v)[i := elementData v ! j]\<rparr>)"
  by (simp add: pbind_def read_data_def write_data_def getitem_nat setitem_nat)

lemma shift_right_loop:
  "a < length (elementData v) \<Longrightarrow>
   pfor (map int (rev [Suc b..<Suc a]))
        (\<lambda>i _. pbind (read_data (i - 1)) (\<lambda>x. write_data i x)) () v
   = (Inr (), v\<lparr>elementData := shift_right b a (elementData v)\<rparr>)"
proof (induction "a - b" arbitrary: a v)
  case 0
  then have "shift_right b a (elementData v) = elementData v"
    by (auto simp: shift_right_def intro!: nth_equalityI)
  with 0 show ?case by (simp add: pret_def)
next
  case (Suc d)
  then have ba: "b < a" by simp
  then have r: "rev [Suc b..<Suc a] = a # rev [Suc b..<Suc (a - 1)]" by simp
  have i1: "int a - 1 = int (a - 1)" using ba by simp
  let ?d = "elementData v"
  let ?v1 = "v\<lparr>elementData := ?d[a := ?d ! (a - 1)]\<rparr>"
  have step: "pbind (read_data (int a - 1)) (\<lambda>x. write_data (int a) x) v = (Inr (), ?v1)"
    unfolding i1 using Suc.prems by (intro move_step) auto
  have ih: "pfor (map int (rev [Suc b..<Suc (a - 1)]))
        (\<lambda>i _. pbind (read_data (i - 1)) (\<lambda>x. write_data i x)) () ?v1
   = (Inr (), ?v1\<lparr>elementData := shift_right b (a - 1) (elementData ?v1)\<rparr>)"
    using Suc by (intro Suc.hyps(1)) auto
  have "pfor (map int (rev [Suc b..<Suc a]))
        (\<lambda>i _. pbind (read_data (i - 1)) (\<lambda>x. write_data i x)) () v
      = pfor (map int (rev [Suc b..<Suc (a - 1)]))
        (\<lambda>i _. pbind (read_data (i - 1)) (\<lambda>x. write_data i x)) () ?v1"
    unfolding r list.map by (rule pfor_Cons_Inr) (simp add: step)
  also note ih
  finally show ?case
    using shift_right_step [OF ba Suc.prems] by simp
qed

lemma shift_left_loop:
  "n < length (elementData v) \<Longrightarrow>
   pfor (map int [k..<n])
        (\<lambda>i _. pbind (read_data (i + 1)) (\<lambda>x. write_data i x)) () v
   = (Inr (), v\<lparr>elementData := shift_left k n (elementData v)\<rparr>)"
proof (induction "n - k" arbitrary: k v)
  case 0
  then have "shift_left k n (elementData v) = elementData v"
    by (auto simp: shift_left_def intro!: nth_equalityI)
  with 0 show ?case by (simp add: pret_def)
next
  case (Suc d)
  then have kn: "k < n" by simp
  then have r: "[k..<n] = k # [Suc k..<n]" by (simp add: upt_conv_Cons)
  have i1: "int k + 1 = int (Suc k)" by simp
  let ?d = "elementData v"
  let ?v1 = "v\<lparr>elementData := ?d[k := ?d ! Suc k]\<rparr>"
  have step: "pbind (read_data (int k + 1)) (\<lambda>x. write_data (int k) x) v = (Inr (), ?v1)"
    unfolding i1 using Suc.prems kn by (intro move_step) auto
  have ih: "pfor (map int [Suc k..<n])
        (\<lambda>i _. pbind (read_data (i + 1)) (\<lambda>x. write_data i x)) () ?v1
   = (Inr (), ?v1\<lparr>elementData := shift_left (Suc k) n (elementData ?v1)\<rparr>)"
    using Suc by (intro Suc.hyps(1)) auto
  have "pfor (map int [k..<n])
        (\<lambda>i _. pbind (read_data (i + 1)) (\<lambda>x. write_data i x)) () v
      = pfor (map int [Suc k..<n])
        (\<lambda>i _. pbind (read_data (i + 1)) (\<lambda>x. write_data i x)) () ?v1"
    unfolding r list.map by (rule pfor_Cons_Inr) (simp add: step)
  also note ih
  finally show ?case
    using shift_left_step [OF kn Suc.prems] by simp
qed


definition vec_inv :: "'a Vector \<Rightarrow> bool" where
  "vec_inv v = (0 \<le> elementCount v \<and> elementCount v \<le> capacity v)"

definition grown_capacity :: "'a Vector \<Rightarrow> int \<Rightarrow> int" where
  "grown_capacity v m =
     (if m > capacity v
      then max (if capacityIncrement v > 0 then capacity v + capacityIncrement v
                else capacity v * 2) m
      else capacity v)"

lemma ensureCapacity_spec:
  assumes "vec_inv v"
  shows "\<exists>D. Vector_ensureCapacity m v = (Inr (), v\<lparr>elementData := D\<rparr>)
           \<and> int (length D) = grown_capacity v m
           \<and> (m \<le> capacity v \<longrightarrow> D = elementData v)
           \<and> (\<forall>j < nat (elementCount v). D ! j = elementData v ! j)"
proof (cases "m > capacity v")
  case False
  then show ?thesis
    by (simp add: Vector_ensureCapacity_def grown_capacity_def capacity_def)
next
  case True
  define c where "c = nat (elementCount v)"
  define n where "n = nat (grown_capacity v m)"
  let ?d = "elementData v"
  have c: "elementCount v = int c" "c \<le> length ?d"
    using assms by (auto simp: vec_inv_def c_def capacity_def)
  have n: "int n = grown_capacity v m" "length ?d \<le> n"
    using True by (auto simp: n_def grown_capacity_def capacity_def max_def)
  have nc: "(if (if capacityIncrement v > 0 then capacity v + capacityIncrement v
                else capacity v * 2) < m then m
            else (if capacityIncrement v > 0 then capacity v + capacityIncrement v
                else capacity v * 2)) = grown_capacity v m"
    using True by (simp add: grown_capacity_def max_def)
  have loop: "copy_loop (py_range 0 (elementCount v)) ?d (replicate n None)
      = Inr (map (\<lambda>j. if 0 \<le> j \<and> j < c then ?d ! j else replicate n None ! j)
               [0..<length (replicate n (None::'a option))])"
    using c n py_range_nat [of 0 c] copy_loop_nat [of c ?d "replicate n None" 0]
    by simp
  let ?D = "map (\<lambda>j. if 0 \<le> j \<and> j < c then ?d ! j else replicate n None ! j)
               [0..<length (replicate n (None::'a option))]"
  have "Vector_ensureCapacity m v = (Inr (), v\<lparr>elementData := ?D\<rparr>)"
    using True loop by (simp add: Vector_ensureCapacity_def Let_def nc n_def)
  moreover have "int (length ?D) = grown_capacity v m" using n by simp
  moreover have "\<forall>j < nat (elementCount v). ?D ! j = ?d ! j"
    using c n by (auto simp: c_def)
  ultimately show ?thesis using True by (intro exI [of _ ?D]) simp
qed


lemma toArray_take:
  "0 \<le> elementCount v \<Longrightarrow> Vector_toArray v = take (nat (elementCount v)) (elementData v)"
  by (simp add: Vector_toArray_def py_slice_to_def)

lemma Vector_get_toArray:
  assumes "vec_inv v" "0 \<le> j" "j < elementCount v"
  shows "Vector_get j v = (Inr (Vector_toArray v ! nat j), v)"
proof -
  have "j = int (nat j)" "nat j < length (elementData v)" "nat j < nat (elementCount v)"
    using assms by (auto simp: vec_inv_def capacity_def)
  then show ?thesis
    using assms getitem_nat [of "elementData v" "nat j"]
    by (simp add: Vector_get_def read_data_def toArray_take vec_inv_def)
qed

lemma Vector_get_out_of_range:
  "j < 0 \<or> j \<ge> elementCount v \<Longrightarrow>
   Vector_get j v = (Inl (IndexError ''Index out of bounds.''), v)"
  by (auto simp: Vector_get_def praise_def)

lemma Vector_add_spec:
  assumes "vec_inv v"
  shows "\<exists>D. Vector_add e v =
              (Inr True, v\<lparr>elementData := D, elementCount := elementCount v + 1\<rparr>)
           \<and> int (length D) = grown_capacity v (elementCount v + 1)
           \<and> (\<forall>j < nat (elementCount v). D ! j = elementData v ! j)
           \<and> D ! nat (elementCount v) = e"
proof -
  obtain D where D: "Vector_ensureCapacity (elementCount v + 1) v = (Inr (), v\<lparr>elementData := D\<rparr>)"
    "int (length D) = grown_capacity v (elementCount v + 1)"
    "\<forall>j < nat (elementCount v). D ! j = elementData v ! j"
    using ensureCapacity_spec [OF assms, of "elementCount v + 1"] by blast
  define c where "c = nat (elementCount v)"
  have c: "elementCount v = int c" using assms by (simp add: c_def vec_inv_def)
  have len: "c < length D"
    using D(2) assms c by (auto simp: grown_capacity_def vec_inv_def capacity_def split: if_splits)
  have "Vector_add e v = (Inr True, v\<lparr>elementData := D[c := e], elementCount := elementCount v + 1\<rparr>)"
    using len by (simp add: Vector_add_def prog_simps D(1) [unfolded c] c setitem_nat)
  moreover have "int (length (D[c := e])) = grown_capacity v (elementCount v + 1)"
    using D(2) by simp
  moreover have "\<forall>j < nat (elementCount v). D[c := e] ! j = elementData v ! j"
    using D(3) by (simp add: c_def)
  moreover have "D[c := e] ! nat (elementCount v) = e"
    using len by (simp add: c_def)
  ultimately show ?thesis by blast
qed

lemma Vector_add_index_spec:
  assumes "vec_inv v" "0 \<le> index" "index \<le> elementCount v"
  shows "\<exists>D. Vector_add_index index e v =
              (Inr (), v\<lparr>elementData := D, elementCount := elementCount v + 1\<rparr>)
           \<and> int (length D) = grown_capacity v (elementCount v + 1)
           \<and> take (nat (elementCount v + 1)) D =
               take (nat index) (Vector_toArray v) @ [e] @ drop (nat index) (Vector_toArray v)"
proof -
  obtain D where D: "Vector_ensureCapacity (elementCount v + 1) v = (Inr (), v\<lparr>elementData := D\<rparr>)"
    "int (length D) = grown_capacity v (elementCount v + 1)"
    "\<forall>j < nat (elementCount v). D ! j = elementData v ! j"
    using ensureCapacity_spec [OF assms(1), of "elementCount v + 1"] by blast
  define c where "c = nat (elementCount v)"
  define i where "i = nat index"
  let ?d = "elementData v"
  have c: "elementCount v = int c" "c \<le> length ?d"
    using assms by (auto simp: c_def vec_inv_def capacity_def)
  have i: "index = int i" "i \<le> c" using assms by (auto simp: i_def c_def)
  have len: "c < length D"
    using D(2) assms c by (auto simp: grown_capacity_def vec_inv_def capacity_def split: if_splits)
  let ?v1 = "v\<lparr>elementData := D\<rparr>"
  have loop: "pfor (py_range_down (elementCount v) (int i))
                (\<lambda>i _. pbind (read_data (i - 1)) (\<lambda>x. write_data i x)) () ?v1
            = (Inr (), v\<lparr>elementData := shift_right i c D\<rparr>)"
    using shift_right_loop [of c ?v1 i] len
    by (simp add: c py_range_down_nat del: upt_Suc)
  let ?D = "(shift_right i c D)[i := e]"
  have lenS: "length (shift_right i c D) = length D" by (simp add: shift_right_def)
  have res: "Vector_add_index index e v =
      (Inr (), v\<lparr>elementData := ?D, elementCount := elementCount v + 1\<rparr>)"
    using assms(2,3) len i lenS
    by (simp add: Vector_add_index_def prog_simps D(1) loop setitem_nat)
  have D3: "\<And>j. j < c \<Longrightarrow> D ! j = ?d ! j" using D(3) by (simp add: c_def)
  have "take (Suc c) ?D = take i (take c ?d) @ [e] @ drop i (take c ?d)"
  proof (rule nth_equalityI)
    show "length (take (Suc c) ?D) = length (take i (take c ?d) @ [e] @ drop i (take c ?d))"
      using len c(2) i(2) lenS by simp
  next
    fix j assume "j < length (take (Suc c) ?D)"
    then have j: "j \<le> c" using len lenS by simp
    consider "j < i" | "j = i" | "i < j" by arith
    then show "take (Suc c) ?D ! j = (take i (take c ?d) @ [e] @ drop i (take c ?d)) ! j"
    proof cases
      case 1
      then have "j < c" using i(2) by simp
      then show ?thesis using 1 j len c(2) i(2) D3 [of j]
        by (simp add: shift_right_def nth_append)
    next
      case 2
      then show ?thesis using j len c(2) i(2) lenS by (simp add: nth_append)
    next
      case 3
      then have j1: "j - 1 < c" "i \<le> j - 1" "j - 1 - i < c - i" using j by auto
      have "take (Suc c) ?D ! j = D ! (j - 1)"
        using 3 j len by (simp add: shift_right_def)
      also have "\<dots> = ?d ! (j - 1)" using D3 j1 by simp
      also have "\<dots> = (take i (take c ?d) @ [e] @ drop i (take c ?d)) ! j"
        using 3 j j1 c(2) i(2) by (simp add: nth_append nth_Cons' min_def)
      finally show ?thesis .
    qed
  qed
  then have "take (nat (elementCount v + 1)) ?D =
               take (nat index) (Vector_toArray v) @ [e] @ drop (nat index) (Vector_toArray v)"
    using assms(1) by (simp add: toArray_take vec_inv_def c_def i_def nat_add_distrib)
  moreover have "int (length ?D) = grown_capacity v (elementCount v + 1)"
    using D(2) lenS by simp
  ultimately show ?thesis using res by blast
qed

section \<open>Vector: insertion, growth and extension\<close>

lemma vec_inv_update:
  "vec_inv v \<Longrightarrow> int (length D) \<ge> c \<Longrightarrow> 0 \<le> c \<Longrightarrow>
   vec_inv (v\<lparr>elementData := D, elementCount := c\<rparr>)"
  by (simp add: vec_inv_def capacity_def)

lemma grown_capacity_ge: "grown_capacity v m \<ge> m" "grown_capacity v m \<ge> capacity v"
  by (auto simp: grown_capacity_def max_def capacity_def)

lemma inserted_nth:
  assumes "i \<le> length xs"
  shows "(take i xs @ [e] @ drop i xs) ! i = e"
    and "j < i \<Longrightarrow> (take i xs @ [e] @ drop i xs) ! j = xs ! j"
    and "i \<le> j \<Longrightarrow> j < length xs \<Longrightarrow> (take i xs @ [e] @ drop i xs) ! Suc j = xs ! j"
proof -
  have l: "length (take i xs) = i" using assms by simp
  show "(take i xs @ [e] @ drop i xs) ! i = e"
    using nth_append_length [of "take i xs" e "drop i xs"] l by simp
  show "j < i \<Longrightarrow> (take i xs @ [e] @ drop i xs) ! j = xs ! j"
    using l by (simp add: nth_append)
  show "i \<le> j \<Longrightarrow> j < length xs \<Longrightarrow> (take i xs @ [e] @ drop i xs) ! Suc j = xs ! j"
  proof -
    assume a: "i \<le> j" "j < length xs"
    have "(take i xs @ [e] @ drop i xs) ! Suc j = ([e] @ drop i xs) ! (Suc j - i)"
      using a l by (simp add: nth_append)
    also have "\<dots> = drop i xs ! (j - i)" using a by (simp add: Suc_diff_le)
    also have "\<dots> = xs ! j" using a by simp
    finally show ?thesis .
  qed
qed

text \<open>
  C6. On a vector whose count lies within its buffer, \<open>add(i, e)\<close> with \<open>0 \<le> i \<le> size\<close>
  returns normally, the vector grows by one, \<open>get(i)\<close> is \<open>e\<close>, every element formerly at
  \<open>j\<close> in \<open>[i, size)\<close> is at \<open>j + 1\<close>, the elements before \<open>i\<close> stay, so the contents are
  the old ones with \<open>e\<close> inserted at \<open>i\<close> (at \<open>i = size\<close>: appended); for \<open>i < 0\<close> or
  \<open>i > size\<close> it raises IndexError and changes nothing.
\<close>

theorem Vector_add_index_correct:
  assumes "vec_inv v"
  shows "(0 \<le> i \<and> i \<le> elementCount v \<longrightarrow>
           (\<exists>v'. Vector_add_index i e v = (Inr (), v')
              \<and> vec_inv v'
              \<and> Vector_size v' = Vector_size v + 1
              \<and> Vector_toArray v' =
                  take (nat i) (Vector_toArray v) @ [e] @ drop (nat i) (Vector_toArray v)
              \<and> Vector_get i v' = (Inr e, v')
              \<and> (\<forall>j. i \<le> j \<and> j < elementCount v \<longrightarrow>
                    fst (Vector_get (j + 1) v') = fst (Vector_get j v))
              \<and> (\<forall>j. 0 \<le> j \<and> j < i \<longrightarrow> fst (Vector_get j v') = fst (Vector_get j v))))
       \<and> (i < 0 \<or> i > elementCount v \<longrightarrow>
            Vector_add_index i e v = (Inl (IndexError ''Index out of bounds''), v))"
proof (intro conjI impI)
  assume "i < 0 \<or> i > elementCount v"
  then show "Vector_add_index i e v = (Inl (IndexError ''Index out of bounds''), v)"
    by (auto simp: Vector_add_index_def praise_def)
next
  assume i: "0 \<le> i \<and> i \<le> elementCount v"
  obtain D where D: "Vector_add_index i e v =
              (Inr (), v\<lparr>elementData := D, elementCount := elementCount v + 1\<rparr>)"
     "int (length D) = grown_capacity v (elementCount v + 1)"
     "take (nat (elementCount v + 1)) D =
               take (nat i) (Vector_toArray v) @ [e] @ drop (nat i) (Vector_toArray v)"
    using Vector_add_index_spec [OF assms, of i e] i by blast
  let ?v' = "v\<lparr>elementData := D, elementCount := elementCount v + 1\<rparr>"
  let ?xs = "Vector_toArray v"
  have cnt: "0 \<le> elementCount v" using assms by (simp add: vec_inv_def)
  have inv': "vec_inv ?v'"
    using assms D(2) grown_capacity_ge(1) [of "elementCount v + 1" v] cnt
    by (intro vec_inv_update) auto
  have arr: "Vector_toArray ?v' = take (nat i) ?xs @ [e] @ drop (nat i) ?xs"
    using D(3) cnt by (simp add: toArray_take)
  have lenxs: "length ?xs = nat (elementCount v)"
    using assms by (auto simp: toArray_take vec_inv_def capacity_def)
  have ni: "nat i \<le> length ?xs" using i lenxs by auto
  note ins = inserted_nth [OF ni, where e = e]
  have get': "\<And>j. 0 \<le> j \<Longrightarrow> j < elementCount v + 1 \<Longrightarrow>
      Vector_get j ?v' = (Inr ((take (nat i) ?xs @ [e] @ drop (nat i) ?xs) ! nat j), ?v')"
    using Vector_get_toArray [OF inv'] arr by simp
  have get0: "\<And>j. 0 \<le> j \<Longrightarrow> j < elementCount v \<Longrightarrow>
      Vector_get j v = (Inr (?xs ! nat j), v)"
    using Vector_get_toArray [OF assms] by simp
  have g1: "Vector_get i ?v' = (Inr e, ?v')"
    using get' [of i] i ins(1) by simp
  have g2: "\<forall>j. i \<le> j \<and> j < elementCount v \<longrightarrow>
                    fst (Vector_get (j + 1) ?v') = fst (Vector_get j v)"
  proof (intro allI impI)
    fix j assume j: "i \<le> j \<and> j < elementCount v"
    then have n: "nat (j + 1) = Suc (nat j)" "nat i \<le> nat j" "nat j < nat (elementCount v)"
      using i by auto
    have "(take (nat i) ?xs @ [e] @ drop (nat i) ?xs) ! nat (j + 1) = ?xs ! nat j"
      using n lenxs ins(3) [where j = "nat j"] by simp
    then show "fst (Vector_get (j + 1) ?v') = fst (Vector_get j v)"
      using get' [of "j + 1"] get0 [of j] j i by simp
  qed
  have g3: "\<forall>j. 0 \<le> j \<and> j < i \<longrightarrow> fst (Vector_get j ?v') = fst (Vector_get j v)"
  proof (intro allI impI)
    fix j assume j: "0 \<le> j \<and> j < i"
    then have n: "nat j < nat i" "nat j < nat (elementCount v)" using i by auto
    have "(take (nat i) ?xs @ [e] @ drop (nat i) ?xs) ! nat j = ?xs ! nat j"
      using n ins(2) [where j = "nat j"] by simp
    then show "fst (Vector_get j ?v') = fst (Vector_get j v)"
      using get' [of j] get0 [of j] j i by simp
  qed
  show "\<exists>v'. Vector_add_index i e v = (Inr (), v')
              \<and> vec_inv v'
              \<and> Vector_size v' = Vector_size v + 1
              \<and> Vector_toArray v' =
                  take (nat i) (Vector_toArray v) @ [e] @ drop (nat i) (Vector_toArray v)
              \<and> Vector_get i v' = (Inr e, v')
              \<and> (\<forall>j. i \<le> j \<and> j < elementCount v \<longrightarrow>
                    fst (Vector_get (j + 1) v') = fst (Vector_get j v))
              \<and> (\<forall>j. 0 \<le> j \<and> j < i \<longrightarrow> fst (Vector_get j v') = fst (Vector_get j v))"
    using D(1) inv' arr g1 g2 g3 by (intro exI [of _ ?v']) (simp add: Vector_size_def)
qed


theorem Vector_add_index_correct_witness:
  "vec_inv (Vector_init (FromCollection [Some (1::int), Some 2]))
   \<and> (0::int) \<le> 1 \<and> 1 \<le> elementCount (Vector_init (FromCollection [Some (1::int), Some 2]))
   \<and> (\<exists>v'. Vector_add_index 1 (Some 9) (Vector_init (FromCollection [Some (1::int), Some 2]))
              = (Inr (), v')
          \<and> Vector_toArray v' = [Some 1, Some 9, Some 2]
          \<and> Vector_get 1 v' = (Inr (Some 9), v'))
   \<and> Vector_add_index 3 (Some 9) (Vector_init (FromCollection [Some (1::int), Some 2]))
       = (Inl (IndexError ''Index out of bounds''),
          Vector_init (FromCollection [Some (1::int), Some 2]))"
proof -
  let ?v = "Vector_init (FromCollection [Some (1::int), Some 2])"
  have inv: "vec_inv ?v" by (simp add: vec_inv_def capacity_def)
  have a: "\<exists>v'. Vector_add_index 1 (Some 9) ?v = (Inr (), v')
          \<and> Vector_toArray v' = [Some 1, Some 9, Some 2]
          \<and> Vector_get 1 v' = (Inr (Some 9), v')"
    using Vector_add_index_correct [OF inv, of 1 "Some 9"]
    by (auto simp: Vector_toArray_def py_slice_to_def)
  have b: "Vector_add_index 3 (Some 9) ?v = (Inl (IndexError ''Index out of bounds''), ?v)"
    using Vector_add_index_correct [OF inv, of 3 "Some 9"] by simp
  show ?thesis using inv a b by simp
qed

lemma ensureCapacity_toArray:
  assumes "vec_inv v" "\<forall>j < nat (elementCount v). D ! j = elementData v ! j"
    "int (length D) \<ge> capacity v"
  shows "Vector_toArray (v\<lparr>elementData := D\<rparr>) = Vector_toArray v"
proof -
  have c: "0 \<le> elementCount v" "nat (elementCount v) \<le> length (elementData v)"
    "nat (elementCount v) \<le> length D"
    using assms by (auto simp: vec_inv_def capacity_def)
  have "take (nat (elementCount v)) D = take (nat (elementCount v)) (elementData v)"
    using c assms(2) by (intro nth_equalityI) auto
  then show ?thesis using c by (simp add: toArray_take)
qed

text \<open>
  C7. \<open>ensureCapacity(m)\<close> leaves the capacity alone when \<open>m \<le> capacity\<close>, and otherwise
  makes it \<open>max(capacity + k, m)\<close> for an increment \<open>k > 0\<close> and \<open>max(2 * capacity, m)\<close> for
  \<open>k = 0\<close>; size and contents stay as they were. A vector created with capacity 2 and
  increment 0 has, after three appends (through \<open>add\<close> or \<open>addElement\<close>), capacity at least
  4, size 3 and the three elements at indices 0, 1, 2.
\<close>

theorem Vector_ensureCapacity_growth:
  assumes "vec_inv v"
  shows "(\<exists>v'. Vector_ensureCapacity m v = (Inr (), v')
            \<and> (m \<le> capacity v \<longrightarrow> capacity v' = capacity v)
            \<and> (m > capacity v \<and> capacityIncrement v > 0 \<longrightarrow>
                  capacity v' = max (capacity v + capacityIncrement v) m)
            \<and> (m > capacity v \<and> capacityIncrement v = 0 \<longrightarrow>
                  capacity v' = max (capacity v * 2) m)
            \<and> Vector_size v' = Vector_size v
            \<and> Vector_toArray v' = Vector_toArray v
            \<and> (\<forall>j. 0 \<le> j \<and> j < Vector_size v \<longrightarrow>
                  fst (Vector_get j v') = fst (Vector_get j v)))
       \<and> (let v3 = snd (Vector_add c (snd (Vector_add b (snd (Vector_add a
                        (Vector_init (CapacityAndIncrement 2 0)))))))
          in capacity v3 \<ge> 4 \<and> Vector_size v3 = 3
             \<and> fst (Vector_get 0 v3) = Inr a \<and> fst (Vector_get 1 v3) = Inr b
             \<and> fst (Vector_get 2 v3) = Inr c)
       \<and> (let w3 = snd (Vector_addElement c (snd (Vector_addElement b (snd (Vector_addElement a
                        (Vector_init (CapacityAndIncrement 2 0)))))))
          in capacity w3 \<ge> 4 \<and> Vector_size w3 = 3
             \<and> fst (Vector_get 0 w3) = Inr a \<and> fst (Vector_get 1 w3) = Inr b
             \<and> fst (Vector_get 2 w3) = Inr c)"
proof (intro conjI)
  obtain D where D: "Vector_ensureCapacity m v = (Inr (), v\<lparr>elementData := D\<rparr>)"
    "int (length D) = grown_capacity v m"
    "m \<le> capacity v \<longrightarrow> D = elementData v"
    "\<forall>j < nat (elementCount v). D ! j = elementData v ! j"
    using ensureCapacity_spec [OF assms, of m] by blast
  let ?v' = "v\<lparr>elementData := D\<rparr>"
  have ge: "int (length D) \<ge> capacity v" using D(2) grown_capacity_ge(2) [of v m] by simp
  have arr: "Vector_toArray ?v' = Vector_toArray v"
    using ensureCapacity_toArray [OF assms D(4) ge] .
  have inv': "vec_inv ?v'" using assms ge by (simp add: vec_inv_def capacity_def)
  have gets: "\<forall>j. 0 \<le> j \<and> j < Vector_size v \<longrightarrow>
                  fst (Vector_get j ?v') = fst (Vector_get j v)"
    using Vector_get_toArray [OF inv'] Vector_get_toArray [OF assms] arr
    by (simp add: Vector_size_def)
  have caps: "m \<le> capacity v \<longrightarrow> capacity ?v' = capacity v"
    "m > capacity v \<and> capacityIncrement v > 0 \<longrightarrow>
                  capacity ?v' = max (capacity v + capacityIncrement v) m"
    "m > capacity v \<and> capacityIncrement v = 0 \<longrightarrow>
                  capacity ?v' = max (capacity v * 2) m"
    using D(2) by (auto simp: grown_capacity_def capacity_def)
  show "\<exists>v'. Vector_ensureCapacity m v = (Inr (), v')
            \<and> (m \<le> capacity v \<longrightarrow> capacity v' = capacity v)
            \<and> (m > capacity v \<and> capacityIncrement v > 0 \<longrightarrow>
                  capacity v' = max (capacity v + capacityIncrement v) m)
            \<and> (m > capacity v \<and> capacityIncrement v = 0 \<longrightarrow>
                  capacity v' = max (capacity v * 2) m)
            \<and> Vector_size v' = Vector_size v
            \<and> Vector_toArray v' = Vector_toArray v
            \<and> (\<forall>j. 0 \<le> j \<and> j < Vector_size v \<longrightarrow>
                  fst (Vector_get j v') = fst (Vector_get j v))"
    using D(1) caps arr gets by (intro exI [of _ ?v']) (simp add: Vector_size_def)
next
  show "let v3 = snd (Vector_add c (snd (Vector_add b (snd (Vector_add a
                        (Vector_init (CapacityAndIncrement 2 0)))))))
          in capacity v3 \<ge> 4 \<and> Vector_size v3 = 3
             \<and> fst (Vector_get 0 v3) = Inr a \<and> fst (Vector_get 1 v3) = Inr b
             \<and> fst (Vector_get 2 v3) = Inr c"
    by (simp add: Vector_add_def Vector_ensureCapacity_def prog_simps capacity_def
        py_range_def getitem_def setitem_def py_index_def Vector_get_def Vector_size_def
        Let_def upto.simps)
next
  show "let w3 = snd (Vector_addElement c (snd (Vector_addElement b (snd (Vector_addElement a
                        (Vector_init (CapacityAndIncrement 2 0)))))))
          in capacity w3 \<ge> 4 \<and> Vector_size w3 = 3
             \<and> fst (Vector_get 0 w3) = Inr a \<and> fst (Vector_get 1 w3) = Inr b
             \<and> fst (Vector_get 2 w3) = Inr c"
    by (simp add: Vector_addElement_def Vector_ensureCapacity_def prog_simps capacity_def
        py_range_def getitem_def setitem_def py_index_def Vector_get_def Vector_size_def
        Let_def upto.simps)
qed


theorem Vector_ensureCapacity_growth_witness:
  "vec_inv (Vector_init (CapacityAndIncrement 2 3) :: int Vector)
   \<and> (\<exists>v'. Vector_ensureCapacity 4 (Vector_init (CapacityAndIncrement 2 3) :: int Vector)
               = (Inr (), v') \<and> capacity v' = 5)
   \<and> (\<exists>v'. Vector_ensureCapacity 3 (Vector_init (CapacityAndIncrement 2 0) :: int Vector)
               = (Inr (), v') \<and> capacity v' = 4)
   \<and> (\<exists>v'. Vector_ensureCapacity 1 (Vector_init (CapacityAndIncrement 2 0) :: int Vector)
               = (Inr (), v') \<and> capacity v' = 2)"
proof -
  let ?v = "Vector_init (CapacityAndIncrement 2 3) :: int Vector"
  let ?w = "Vector_init (CapacityAndIncrement 2 0) :: int Vector"
  have inv: "vec_inv ?v" "vec_inv ?w" by (simp_all add: vec_inv_def capacity_def)
  have a: "\<exists>v'. Vector_ensureCapacity 4 ?v = (Inr (), v') \<and> capacity v' = 5"
    using Vector_ensureCapacity_growth [OF inv(1), where m = 4 and a = None and b = None and c = None] by (auto simp: capacity_def)
  have b: "\<exists>v'. Vector_ensureCapacity 3 ?w = (Inr (), v') \<and> capacity v' = 4"
    using Vector_ensureCapacity_growth [OF inv(2), where m = 3 and a = None and b = None and c = None] by (auto simp: capacity_def)
  have c: "\<exists>v'. Vector_ensureCapacity 1 ?w = (Inr (), v') \<and> capacity v' = 2"
    using Vector_ensureCapacity_growth [OF inv(2), where m = 1 and a = None and b = None and c = None] by (auto simp: capacity_def)
  show ?thesis using inv a b c by simp
qed

lemma Vector_setElementAt_spec:
  assumes "vec_inv v" "0 \<le> index"
  shows "\<exists>D. Vector_setElementAt x index v =
              (Inr (), v\<lparr>elementData := D,
                         elementCount := (if index \<ge> elementCount v then index + 1
                                          else elementCount v)\<rparr>)
           \<and> int (length D) = grown_capacity v (if index \<ge> capacity v then index + 1 else 0)
           \<and> index < int (length D)
           \<and> D ! nat index = x
           \<and> (\<forall>j < nat (elementCount v). j \<noteq> nat index \<longrightarrow> D ! j = elementData v ! j)"
proof -
  let ?m = "if index \<ge> capacity v then index + 1 else 0"
  obtain D where D: "Vector_ensureCapacity ?m v = (Inr (), v\<lparr>elementData := D\<rparr>)"
    "int (length D) = grown_capacity v ?m"
    "?m \<le> capacity v \<longrightarrow> D = elementData v"
    "\<forall>j < nat (elementCount v). D ! j = elementData v ! j"
    using ensureCapacity_spec [OF assms(1), of ?m] by blast
  define i where "i = nat index"
  have i: "index = int i" using assms(2) by (simp add: i_def)
  have len: "i < length D"
    using D(2) grown_capacity_ge [where m = ?m and v = v] i by (auto simp: capacity_def split: if_splits)
  have step1: "(if index \<ge> capacity v then Vector_ensureCapacity (index + 1) v else pret () v)
      = (Inr (), v\<lparr>elementData := D\<rparr>)"
  proof (cases "index \<ge> capacity v")
    case True
    then show ?thesis using D(1) by simp
  next
    case False
    then have "D = elementData v" using D(3) by (simp add: capacity_def)
    with False show ?thesis by (simp add: pret_def)
  qed
  have "Vector_setElementAt x index v =
      (Inr (), v\<lparr>elementData := D[i := x],
                 elementCount := (if index \<ge> elementCount v then index + 1
                                  else elementCount v)\<rparr>)"
    using assms(2) len step1
    by (simp add: Vector_setElementAt_def prog_simps i [symmetric] setitem_nat [of _ i, folded i])
  moreover have "int (length (D[i := x])) = grown_capacity v ?m" using D(2) by simp
  moreover have "index < int (length (D[i := x]))" using len i by simp
  moreover have "D[i := x] ! nat index = x" using len by (simp add: i_def)
  moreover have "\<forall>j < nat (elementCount v). j \<noteq> nat index \<longrightarrow> D[i := x] ! j = elementData v ! j"
    using D(4) by (simp add: i_def)
  ultimately show ?thesis by blast
qed


lemma Vector_get_nth:
  assumes "0 \<le> j" "j < elementCount v" "j < int (length (elementData v))"
  shows "Vector_get j v = (Inr (elementData v ! nat j), v)"
proof -
  have "j = int (nat j)" "nat j < length (elementData v)" using assms by auto
  then show ?thesis
    using assms getitem_nat [of "elementData v" "nat j"]
    by (simp add: Vector_get_def read_data_def)
qed

text \<open>
  C10. \<open>setElementAt(x, i)\<close> with \<open>i\<close> at or beyond the size does not raise: the buffer
  grows to at least \<open>i + 1\<close> slots, the size becomes \<open>i + 1\<close>, \<open>get(i)\<close> is \<open>x\<close> and the
  elements formerly below the size are unchanged.
\<close>

theorem Vector_setElementAt_extends:
  assumes "vec_inv v" "0 \<le> i" "Vector_size v \<le> i"
  shows "\<exists>v'. Vector_setElementAt x i v = (Inr (), v')
            \<and> vec_inv v'
            \<and> capacity v' \<ge> i + 1
            \<and> Vector_size v' = i + 1
            \<and> Vector_get i v' = (Inr x, v')
            \<and> (\<forall>j. 0 \<le> j \<and> j < Vector_size v \<longrightarrow>
                  fst (Vector_get j v') = fst (Vector_get j v))"
proof -
  have ge: "elementCount v \<le> i" using assms(3) by (simp add: Vector_size_def)
  obtain D where D: "Vector_setElementAt x i v =
              (Inr (), v\<lparr>elementData := D, elementCount := i + 1\<rparr>)"
    "i < int (length D)" "D ! nat i = x"
    "\<forall>j < nat (elementCount v). j \<noteq> nat i \<longrightarrow> D ! j = elementData v ! j"
    using Vector_setElementAt_spec [OF assms(1,2), of x] ge by auto
  let ?v' = "v\<lparr>elementData := D, elementCount := i + 1\<rparr>"
  have inv': "vec_inv ?v'" using D(2) assms(2) by (simp add: vec_inv_def capacity_def)
  have cap: "capacity ?v' \<ge> i + 1" using D(2) by (simp add: capacity_def)
  have g1: "Vector_get i ?v' = (Inr x, ?v')"
    using Vector_get_nth [of i ?v'] assms(2) D(2,3) by simp
  have g2: "\<forall>j. 0 \<le> j \<and> j < Vector_size v \<longrightarrow>
                  fst (Vector_get j ?v') = fst (Vector_get j v)"
  proof (intro allI impI)
    fix j assume j: "0 \<le> j \<and> j < Vector_size v"
    then have jc: "j < elementCount v" by (simp add: Vector_size_def)
    have n: "nat j < nat (elementCount v)" "nat j \<noteq> nat i" using j jc ge by auto
    have lv: "j < int (length (elementData v))"
      using assms(1) jc by (simp add: vec_inv_def capacity_def)
    have "Vector_get j ?v' = (Inr (D ! nat j), ?v')"
      using Vector_get_nth [of j ?v'] j jc ge D(2) by simp
    moreover have "Vector_get j v = (Inr (elementData v ! nat j), v)"
      using Vector_get_nth [of j v] j jc lv by simp
    ultimately show "fst (Vector_get j ?v') = fst (Vector_get j v)"
      using D(4) n by simp
  qed
  show ?thesis using D(1) inv' cap g1 g2
    by (intro exI [of _ ?v']) (simp add: Vector_size_def)
qed

theorem Vector_setElementAt_extends_witness:
  "vec_inv (Vector_init (FromCollection [Some (1::int)]))
   \<and> (0::int) \<le> 3 \<and> Vector_size (Vector_init (FromCollection [Some (1::int)])) \<le> 3
   \<and> (\<exists>v'. Vector_setElementAt (Some 7) 3 (Vector_init (FromCollection [Some (1::int)]))
              = (Inr (), v')
          \<and> Vector_size v' = 4 \<and> capacity v' \<ge> 4
          \<and> Vector_get 3 v' = (Inr (Some 7), v')
          \<and> fst (Vector_get 0 v') = Inr (Some 1))"
proof -
  let ?v = "Vector_init (FromCollection [Some (1::int)])"
  have inv: "vec_inv ?v" by (simp add: vec_inv_def capacity_def)
  have sz: "Vector_size ?v \<le> 3" by (simp add: Vector_size_def)
  have g0: "fst (Vector_get 0 ?v) = Inr (Some 1)"
    by (simp add: Vector_get_def read_data_def getitem_def py_index_def)
  have "\<exists>v'. Vector_setElementAt (Some 7) 3 ?v = (Inr (), v')
          \<and> Vector_size v' = 4 \<and> capacity v' \<ge> 4
          \<and> Vector_get 3 v' = (Inr (Some 7), v')
          \<and> fst (Vector_get 0 v') = Inr (Some 1)"
    using Vector_setElementAt_extends [OF inv _ sz, of "Some 7"] g0
    by (auto simp: Vector_size_def)
  then show ?thesis using inv sz by simp
qed

section \<open>Vector: the count stays within the buffer\<close>

text \<open>
  \<open>shape_eq\<close> relates two states with the same buffer length and the same count: what
  every read and every in-place write of a slot preserves, whether it returns or raises.
\<close>

definition shape_eq :: "'a Vector \<Rightarrow> 'a Vector \<Rightarrow> bool" where
  "shape_eq v v' = (length (elementData v') = length (elementData v)
                    \<and> elementCount v' = elementCount v)"

lemma shape_eq_refl [simp]: "shape_eq v v"
  by (simp add: shape_eq_def)

lemma shape_eq_trans: "shape_eq a b \<Longrightarrow> shape_eq b c \<Longrightarrow> shape_eq a c"
  by (simp add: shape_eq_def)

lemma shape_eq_inv: "shape_eq v v' \<Longrightarrow> vec_inv v \<Longrightarrow> vec_inv v'"
  by (simp add: shape_eq_def vec_inv_def capacity_def)

lemma py_index_length: "py_index xs i = Some j \<Longrightarrow> j < length xs"
  by (auto simp: py_index_def split: if_splits)

lemma py_index_nonneg: "py_index xs i = Some j \<Longrightarrow> 0 \<le> i \<Longrightarrow> i < int (length xs)"
  by (auto simp: py_index_def split: if_splits)

lemma read_data_out: "read_data i v = (r, v') \<Longrightarrow> v' = v"
  by (simp add: read_data_def)

lemma write_data_out:
  assumes "write_data i x v = (r, v')"
  shows "shape_eq v v'" and "r = Inr u \<Longrightarrow> 0 \<le> i \<Longrightarrow> i < capacity v"
  using assms
  by (auto simp: write_data_def setitem_def shape_eq_def capacity_def
      split: option.splits dest: py_index_nonneg)

lemma pfor_shape:
  assumes "\<And>i acc s r s'. body i acc s = (r, s') \<Longrightarrow> shape_eq s s'"
    and "pfor xs body acc v = (r, v')"
  shows "shape_eq v v'"
proof -
  have "shape_eq v (snd (pfor xs body acc v))"
  proof (rule pfor_preserves [where I = "shape_eq v"])
    fix i acc s assume "shape_eq v s"
    moreover have "shape_eq s (snd (body i acc s))"
      using assms(1) [of i acc s] by (cases "body i acc s") simp
    ultimately show "shape_eq v (snd (body i acc s))" by (rule shape_eq_trans)
  qed simp
  with assms(2) show ?thesis by simp
qed

lemma move_out:
  "pbind (read_data j) (\<lambda>x. write_data i (f x)) s = (r, s') \<Longrightarrow> shape_eq s s'"
  by (auto simp: pbind_apply read_data_apply split: sum.splits dest: write_data_out(1))

lemma moves_shape:
  "pfor xs (\<lambda>i _. pbind (read_data (g i)) (\<lambda>x. write_data (h i) (f x))) acc v = (r, v')
   \<Longrightarrow> shape_eq v v'"
  by (erule pfor_shape [rotated]) (rule move_out)

lemma ensureCapacity_out:
  assumes "vec_inv v" "Vector_ensureCapacity m v = (r, v')"
  shows "r = Inr () \<and> vec_inv v' \<and> elementCount v' = elementCount v
         \<and> capacity v' \<ge> m \<and> capacity v' \<ge> capacity v"
proof -
  obtain D where D: "Vector_ensureCapacity m v = (Inr (), v\<lparr>elementData := D\<rparr>)"
    "int (length D) = grown_capacity v m"
    using ensureCapacity_spec [OF assms(1), of m] by blast
  then show ?thesis
    using assms grown_capacity_ge [where m = m and v = v]
    by (auto simp: vec_inv_def capacity_def)
qed

lemma Vector_removeAt_out:
  assumes "vec_inv v" "Vector_removeAt index v = (r, v')"
  shows "vec_inv v' \<and> capacity v' = capacity v"
proof (cases "index < 0 \<or> index \<ge> elementCount v")
  case True
  then show ?thesis using assms by (auto simp: Vector_removeAt_def praise_def)
next
  case False
  let ?loop = "pfor (py_range index (elementCount v - 1))
                 (\<lambda>i _. pbind (read_data (i + 1)) (\<lambda>x. write_data i x)) ()"
  obtain res v1 where l: "?loop v = (res, v1)" by (cases "?loop v")
  have s1: "shape_eq v v1"
    using moves_shape [of _ "\<lambda>i. i + 1" "\<lambda>i. i" "\<lambda>x. x", OF l] .
  obtain r2 v2 where w: "write_data (elementCount v1 - 1) None v1 = (r2, v2)"
    by (cases "write_data (elementCount v1 - 1) None v1")
  have s2: "shape_eq v1 v2" using write_data_out(1) [OF w] .
  have s: "shape_eq v v2" using s1 s2 by (rule shape_eq_trans)
  have "v' = v \<or> v' = v1 \<or> v' = v2 \<or> v' = v2\<lparr>elementCount := elementCount v2 - 1\<rparr>"
    using assms(2) l w False
    by (auto simp: Vector_removeAt_def pbind_apply pthen_apply pmodify_apply pret_apply
        read_data_apply split: sum.splits)
  moreover have "vec_inv v1 \<and> capacity v1 = capacity v"
    using s1 assms(1) by (simp add: shape_eq_def vec_inv_def capacity_def)
  moreover have "vec_inv v2 \<and> capacity v2 = capacity v"
    using s assms(1) by (simp add: shape_eq_def vec_inv_def capacity_def)
  moreover have "vec_inv (v2\<lparr>elementCount := elementCount v2 - 1\<rparr>)
      \<and> capacity (v2\<lparr>elementCount := elementCount v2 - 1\<rparr>) = capacity v"
    using s assms(1) False by (simp add: shape_eq_def vec_inv_def capacity_def)
  ultimately show ?thesis using assms(1) by auto
qed


text \<open>
  \<open>keeps I m\<close>: the call \<open>m\<close> leaves a state satisfying \<open>I\<close> whenever it starts in one,
  on a normal return and on a raise alike.
\<close>

definition keeps :: "('s \<Rightarrow> bool) \<Rightarrow> ('s, 'r) prog \<Rightarrow> bool" where
  "keeps I m = (\<forall>s. I s \<longrightarrow> I (snd (m s)))"

lemma keepsI: "(\<And>s. I s \<Longrightarrow> I (snd (m s))) \<Longrightarrow> keeps I m"
  by (simp add: keeps_def)

lemma keepsD: "keeps I m \<Longrightarrow> I s \<Longrightarrow> I (snd (m s))"
  by (simp add: keeps_def)

lemma keeps_pret: "keeps I (pret x)"
  by (simp add: keeps_def pret_def)

lemma keeps_praise: "keeps I (praise e)"
  by (simp add: keeps_def praise_def)

lemma keeps_pbind:
  assumes "keeps I m" "\<And>x. keeps I (f x)"
  shows "keeps I (pbind m f)"
proof (rule keepsI)
  fix s assume "I s"
  then have "I (snd (m s))" using assms(1) by (rule keepsD [rotated])
  then show "I (snd (pbind m f s))"
    using assms(2) by (cases "m s") (auto simp: pbind_def keeps_def split: sum.splits)
qed

lemma keeps_pthen: "keeps I m \<Longrightarrow> keeps I n \<Longrightarrow> keeps I (pthen m n)"
  by (simp add: pthen_def keeps_pbind)

lemma keeps_pfor:
  assumes "\<And>i acc. keeps I (body i acc)"
  shows "keeps I (pfor xs body acc)"
  by (rule keepsI, rule pfor_preserves) (use assms in \<open>auto simp: keeps_def\<close>)

lemma keeps_pcatch: "keeps I m \<Longrightarrow> keeps I h \<Longrightarrow> keeps I (pcatch_IndexError m h)"
proof (rule keepsI)
  fix s assume "I s"
  assume m: "keeps I m" and h: "keeps I h"
  obtain r s' where ms: "m s = (r, s')" by (cases "m s")
  have "I s'" using keepsD [OF m \<open>I s\<close>] ms by simp
  then have "I (snd (h s'))" using h by (rule keepsD [rotated])
  then show "I (snd (pcatch_IndexError m h s))"
    using ms \<open>I s'\<close>
    by (auto simp: pcatch_IndexError_def split: sum.splits error.splits)
qed

lemma keeps_state: "(\<And>s0. keeps I (f s0)) \<Longrightarrow> keeps I (\<lambda>s. f s s)"
  by (simp add: keeps_def)

lemma keeps_if: "keeps I m \<Longrightarrow> keeps I n \<Longrightarrow> keeps I (if b then m else n)"
  by simp

lemma keeps_guard:
  "keeps I m \<Longrightarrow> keeps I n \<Longrightarrow> keeps I (\<lambda>s. if c s then m s else n s)"
  by (simp add: keeps_def)

lemma keeps_guard_state:
  "(\<And>s0. keeps I (m s0)) \<Longrightarrow> keeps I n \<Longrightarrow>
   keeps I (\<lambda>s. (if c s then m s else n) s)"
  by (simp add: keeps_def)

lemma keeps_read_data: "keeps I (read_data i)"
  by (simp add: keeps_def read_data_def)

lemma keeps_write_data: "keeps vec_inv (write_data i x)"
proof (rule keepsI)
  fix s :: "'a Vector" assume "vec_inv s"
  then show "vec_inv (snd (write_data i x s))"
    using write_data_out(1) [of i x s] shape_eq_inv
    by (cases "write_data i x s") auto
qed

lemma keeps_ensureCapacity: "keeps vec_inv (Vector_ensureCapacity m)"
proof (rule keepsI)
  fix s :: "'a Vector" assume "vec_inv s"
  then show "vec_inv (snd (Vector_ensureCapacity m s))"
    using ensureCapacity_out [of s m] by (cases "Vector_ensureCapacity m s") auto
qed

lemma keeps_removeAt: "keeps vec_inv (Vector_removeAt i)"
proof (rule keepsI)
  fix s :: "'a Vector" assume "vec_inv s"
  then show "vec_inv (snd (Vector_removeAt i s))"
    using Vector_removeAt_out [of s i] by (cases "Vector_removeAt i s") auto
qed

lemma keeps_index_scan: "keeps I (index_scan xs obj)"
  by (simp add: keeps_def index_scan_state)

lemma keeps_removeElement: "keeps vec_inv (Vector_removeElement elem)"
  unfolding Vector_removeElement_def Vector_indexOf_def
  apply (rule keeps_pcatch)
   apply (rule keeps_pbind)
    apply (rule keeps_state [where f = "\<lambda>s0. index_scan (py_range 0 (elementCount s0)) elem"])
    apply (rule keeps_index_scan)
   apply (intro keeps_if keeps_pthen keeps_removeAt keeps_pret)
  apply (rule keeps_pret)
  done

lemma keeps_removeAll_while: "keeps vec_inv (removeAll_while elem removed)"
proof (rule keepsI)
  fix s :: "'a Vector" assume "vec_inv s"
  then show "vec_inv (snd (removeAll_while elem removed s))"
  proof (induction elem removed s rule: removeAll_while.induct)
    case (1 elem removed v)
    have k: "vec_inv (snd (Vector_removeElement elem v))"
      using keeps_removeElement "1.prems" by (rule keepsD)
    show ?case
    proof (cases "Vector_removeElement elem v")
      case (Pair r v')
      with k have inv': "vec_inv v'" by simp
      show ?thesis
      proof (cases r)
        case (Inl e)
        with Pair inv' show ?thesis by (subst removeAll_while.simps) simp
      next
        case (Inr b)
        show ?thesis
        proof (cases b)
          case True
          with Pair Inr "1.IH" inv' show ?thesis
            by (subst removeAll_while.simps) simp
        next
          case False
          with Pair Inr inv' show ?thesis by (subst removeAll_while.simps) simp
        qed
      qed
    qed
  qed
qed

lemma keeps_removeAll: "keeps vec_inv (Vector_removeAll c)"
  unfolding Vector_removeAll_def by (intro keeps_pfor keeps_removeAll_while)

lemma keeps_filter_body:
  "keeps vec_inv (pbind (read_data i) (\<lambda>x. if p x then pthen (Vector_removeAt i) (pret True)
                                          else pret removed))"
  by (intro keeps_pbind keeps_read_data keeps_if keeps_pthen keeps_removeAt keeps_pret)

lemma keeps_removeIf: "keeps vec_inv (Vector_removeIf predicate)"
  unfolding Vector_removeIf_def
  apply (rule keeps_state [where f = "\<lambda>s0. pfor (py_range_down (elementCount s0 - 1) (- 1)) _ False"])
  apply (rule keeps_pfor)
  apply (rule keeps_filter_body)
  done

lemma keeps_retainAll: "keeps vec_inv (Vector_retainAll c)"
  unfolding Vector_retainAll_def
  apply (rule keeps_state [where f = "\<lambda>s0. pfor (py_range 0 (elementCount s0)) _ False"])
  apply (rule keeps_pfor)
  apply (rule keeps_filter_body [where p = "\<lambda>x. x \<notin> set c"])
  done

lemma keeps_replaceAll: "keeps vec_inv (Vector_replaceAll operator)"
  unfolding Vector_replaceAll_def
  apply (rule keeps_state [where f = "\<lambda>s0. pfor (py_range 0 (elementCount s0)) _ ()"])
  apply (rule keeps_pfor)
  apply (intro keeps_pbind keeps_read_data keeps_write_data)
  done

lemma keeps_set: "keeps vec_inv (Vector_set index element)"
  unfolding Vector_set_def
  apply (rule keeps_guard)
   apply (rule keeps_praise)
  apply (intro keeps_pbind keeps_read_data keeps_pthen keeps_write_data keeps_pret)
  done


lemma keeps_add: "keeps vec_inv (Vector_add e)"
proof (rule keepsI)
  fix s :: "'a Vector" assume inv: "vec_inv s"
  obtain D where D: "Vector_add e s =
              (Inr True, s\<lparr>elementData := D, elementCount := elementCount s + 1\<rparr>)"
    "int (length D) = grown_capacity s (elementCount s + 1)"
    using Vector_add_spec [OF inv, of e] by blast
  show "vec_inv (snd (Vector_add e s))"
    using D inv grown_capacity_ge(1) [of "elementCount s + 1" s]
    by (simp add: vec_inv_def capacity_def)
qed

lemma keeps_add_index: "keeps vec_inv (Vector_add_index i e)"
proof (rule keepsI)
  fix s :: "'a Vector" assume inv: "vec_inv s"
  show "vec_inv (snd (Vector_add_index i e s))"
  proof (cases "0 \<le> i \<and> i \<le> elementCount s")
    case True
    then obtain D where D: "Vector_add_index i e s =
              (Inr (), s\<lparr>elementData := D, elementCount := elementCount s + 1\<rparr>)"
      "int (length D) = grown_capacity s (elementCount s + 1)"
      using Vector_add_index_spec [OF inv, of i e] by blast
    then show ?thesis
      using inv grown_capacity_ge(1) [of "elementCount s + 1" s]
      by (simp add: vec_inv_def capacity_def)
  next
    case False
    then show ?thesis using inv by (auto simp: Vector_add_index_def praise_def)
  qed
qed

text \<open>Writing at \<open>elementCount\<close> and then incrementing it, the tail of every append.\<close>

lemma keeps_append_step:
  "keeps vec_inv (pthen (\<lambda>v. write_data (elementCount v) e v)
                        (pmodify (\<lambda>v. v\<lparr>elementCount := elementCount v + 1\<rparr>)))"
proof (rule keepsI)
  fix s :: "'a Vector" assume inv: "vec_inv s"
  obtain r s' where w: "write_data (elementCount s) e s = (r, s')"
    by (cases "write_data (elementCount s) e s")
  have sh: "shape_eq s s'" using write_data_out(1) [OF w] .
  show "vec_inv (snd (pthen (\<lambda>v. write_data (elementCount v) e v)
                        (pmodify (\<lambda>v. v\<lparr>elementCount := elementCount v + 1\<rparr>)) s))"
  proof (cases r)
    case (Inl err)
    then show ?thesis using w sh inv shape_eq_inv by (auto simp: pthen_apply)
  next
    case (Inr u)
    have "elementCount s < capacity s"
      using write_data_out(2) [OF w Inr] inv by (simp add: vec_inv_def)
    then show ?thesis using w sh inv Inr
      by (simp add: pthen_apply pmodify_apply shape_eq_def vec_inv_def capacity_def)
  qed
qed

lemma keeps_addElement: "keeps vec_inv (Vector_addElement obj)"
  unfolding Vector_addElement_def
  apply (rule keeps_pthen)
   apply (rule keeps_guard_state)
    apply (rule keeps_ensureCapacity)
   apply (rule keeps_pret)
  apply (rule keeps_append_step)
  done

lemma keeps_addAll: "keeps vec_inv (Vector_addAll arg)"
proof (cases arg)
  case (IterableArg collection)
  show ?thesis
    unfolding Vector_addAll_def IterableArg addAll_arg.case Let_def
    apply (rule keeps_if)
     apply (rule keeps_pret)
    apply (rule keeps_pthen)
     apply (rule keeps_state [where f = "\<lambda>s0. Vector_ensureCapacity
               (elementCount s0 + int (length collection))"])
     apply (rule keeps_ensureCapacity)
    apply (rule keeps_pthen)
     apply (rule keeps_pfor)
     apply (rule keeps_append_step)
    apply (rule keeps_pret)
    done
next
  case (CollectionArg cls c)
  show ?thesis unfolding Vector_addAll_def CollectionArg addAll_arg.case by (rule keeps_praise)
next
  case NotIterable
  show ?thesis unfolding Vector_addAll_def NotIterable addAll_arg.case by (rule keeps_praise)
qed

lemma keeps_clear: "keeps vec_inv Vector_clear"
  by (simp add: keeps_def Vector_clear_def pmodify_def vec_inv_def capacity_def)

lemma keeps_trimToSize: "keeps vec_inv Vector_trimToSize"
  by (auto simp: keeps_def Vector_trimToSize_def vec_inv_def capacity_def py_slice_to_def)

lemma keeps_sort: "keeps vec_inv (Vector_sort c)"
  by (auto simp: keeps_def Vector_sort_def pmodify_def vec_inv_def capacity_def
      py_slice_to_assign_def py_slice_to_def)

lemma keeps_setElementAt: "keeps vec_inv (Vector_setElementAt x i)"
proof (rule keepsI)
  fix s :: "'a Vector" assume inv: "vec_inv s"
  show "vec_inv (snd (Vector_setElementAt x i s))"
  proof (cases "0 \<le> i")
    case True
    obtain D where D: "Vector_setElementAt x i s =
              (Inr (), s\<lparr>elementData := D,
                         elementCount := (if i \<ge> elementCount s then i + 1
                                          else elementCount s)\<rparr>)"
      "int (length D) = grown_capacity s (if i \<ge> capacity s then i + 1 else 0)"
      "i < int (length D)"
      using Vector_setElementAt_spec [OF inv True, of x] by blast
    then show ?thesis
      using inv True grown_capacity_ge(2) [of s "if i \<ge> capacity s then i + 1 else 0"]
      by (auto simp: vec_inv_def capacity_def)
  next
    case False
    then show ?thesis using inv by (simp add: Vector_setElementAt_def praise_def)
  qed
qed

lemma writes_shape:
  "pfor xs (\<lambda>i _. write_data (h i) x) acc v = (r, v') \<Longrightarrow> shape_eq v v'"
  by (erule pfor_shape [rotated]) (rule write_data_out(1))

lemma keeps_setSize: "keeps vec_inv (Vector_setSize newSize)"
proof (rule keepsI)
  fix s :: "'a Vector" assume inv: "vec_inv s"
  show "vec_inv (snd (Vector_setSize newSize s))"
  proof (cases "newSize < 0")
    case True
    then show ?thesis using inv by (simp add: Vector_setSize_def praise_def)
  next
    case nonneg: False
    let ?step = "\<lambda>v. if newSize > capacity v then Vector_ensureCapacity newSize v
                         else if newSize < elementCount v
                         then pfor (py_range newSize (elementCount v))
                                (\<lambda>i _. write_data i None) () v
                         else pret () v"
    obtain r s' where st: "?step s = (r, s')" by (cases "?step s")
    have "vec_inv s' \<and> (\<forall>u. r = Inr u \<longrightarrow> newSize \<le> capacity s')"
    proof (cases "newSize > capacity s")
      case True
      then show ?thesis using st ensureCapacity_out [OF inv, of newSize r s'] by simp
    next
      case le: False
      show ?thesis
      proof (cases "newSize < elementCount s")
        case True
        then have "shape_eq s s'"
          using st le writes_shape [of _ "\<lambda>i. i" None "()" s r s'] by simp
        then show ?thesis using inv le by (simp add: shape_eq_def vec_inv_def capacity_def)
      next
        case False
        then show ?thesis using st le inv by (simp add: pret_def)
      qed
    qed
    then show ?thesis using st nonneg
      by (cases r)
         (simp_all add: Vector_setSize_def pthen_apply pmodify_apply vec_inv_def capacity_def)
  qed
qed

lemma keeps_Stack_push: "keeps vec_inv (Stack_push item)"
  unfolding Stack_push_def by (intro keeps_pthen keeps_addElement keeps_pret)

lemma keeps_Stack_pop: "keeps vec_inv Stack_pop"
  unfolding Stack_pop_def Vector_removeElementAt_def
  apply (rule keeps_guard)
   apply (rule keeps_praise)
  apply (rule keeps_state [where f = "\<lambda>s0. pbind (read_data (elementCount s0 - 1)) _"])
  apply (rule keeps_pbind)
   apply (rule keeps_read_data)
  apply (rule keeps_pthen)
   apply (rule keeps_state [where f = "\<lambda>s0. Vector_removeAt (elementCount s0 - 1)"])
   apply (rule keeps_removeAt)
  apply (rule keeps_pret)
  done


lemma insert_loop_shape:
  "pfor xs (\<lambda>element index'. pthen (write_data index' element) (pret (index' + 1))) k v
     = (r, v') \<Longrightarrow> shape_eq v v'"
proof (erule pfor_shape [rotated])
  fix i :: "'a option" and acc :: int and s r s'
  assume a: "pthen (write_data acc i) (pret (acc + 1)) s = (r, s')"
  obtain r1 s1 where w: "write_data acc i s = (r1, s1)" by (cases "write_data acc i s")
  have "s' = s1" using a w by (auto simp: pthen_apply pret_apply split: sum.splits)
  then show "shape_eq s s'" using write_data_out(1) [OF w] by simp
qed

lemma keeps_addAll_index_iterable:
  "keeps vec_inv (Vector_addAll_index index (IterableArg collection))"
proof (rule keepsI)
  fix s :: "'a Vector" assume inv: "vec_inv s"
  define n where "n = int (length collection)"
  show "vec_inv (snd (Vector_addAll_index index (IterableArg collection) s))"
  proof (cases "index < 0 \<or> index > elementCount s \<or> n = 0")
    case True
    then show ?thesis using inv
      by (auto simp: Vector_addAll_index_def praise_def pret_def n_def Let_def)
  next
    case False
    obtain r1 s1 where e: "Vector_ensureCapacity (elementCount s + n) s = (r1, s1)"
      by (cases "Vector_ensureCapacity (elementCount s + n) s")
    have s1: "r1 = Inr ()" "vec_inv s1" "elementCount s1 = elementCount s"
      "capacity s1 \<ge> elementCount s + n"
      using ensureCapacity_out [OF inv e] by auto
    let ?shift = "pfor (py_range_down (elementCount s1 - 1) (index - 1))
                    (\<lambda>i _. pbind (read_data i) (\<lambda>x. write_data (i + n) x)) ()"
    obtain r2 s2 where sh: "?shift s1 = (r2, s2)" by (cases "?shift s1")
    have s2: "shape_eq s1 s2"
      using moves_shape [of _ "\<lambda>i. i" "\<lambda>i. i + n" "\<lambda>x. x", OF sh] .
    let ?ins = "pfor collection
                  (\<lambda>element index'. pthen (write_data index' element) (pret (index' + 1)))
                  index"
    obtain r3 s3 where i3: "?ins s2 = (r3, s3)" by (cases "?ins s2")
    have s3: "shape_eq s2 s3" using insert_loop_shape [OF i3] .
    have s13: "shape_eq s1 s3" using s2 s3 by (rule shape_eq_trans)
    have "snd (Vector_addAll_index index (IterableArg collection) s) = s2
        \<or> snd (Vector_addAll_index index (IterableArg collection) s) = s3
        \<or> snd (Vector_addAll_index index (IterableArg collection) s)
            = s3\<lparr>elementCount := elementCount s3 + n\<rparr>"
      using False e s1(1) sh i3
      by (auto simp: Vector_addAll_index_def Let_def n_def [symmetric] pthen_apply pbind_apply
          pmodify_apply pret_apply split: sum.splits)
    moreover have "vec_inv s2" using s2 s1(2) by (rule shape_eq_inv)
    moreover have "vec_inv s3" using s13 s1(2) by (rule shape_eq_inv)
    moreover have "vec_inv (s3\<lparr>elementCount := elementCount s3 + n\<rparr>)"
      using s13 s1 inv by (simp add: shape_eq_def vec_inv_def capacity_def n_def)
    ultimately show ?thesis by auto
  qed
qed

lemma keeps_addAll_index: "keeps vec_inv (Vector_addAll_index index arg)"
proof (cases arg)
  case (IterableArg collection)
  then show ?thesis by (simp add: keeps_addAll_index_iterable)
next
  case (CollectionArg cls c)
  show ?thesis
    by (rule keepsI) (simp add: Vector_addAll_index_def CollectionArg praise_def)
next
  case NotIterable
  show ?thesis
    by (rule keepsI) (simp add: Vector_addAll_index_def NotIterable praise_def)
qed


text \<open>
  A call of a mutating method of \<open>Vector\<close> (or of \<open>Stack\<close>, which shares the state) with
  its arguments; \<open>state_after\<close> is the state the call leaves, its result or exception
  dropped, and \<open>after_calls\<close> runs a sequence of calls from left to right.
\<close>

datatype 'a Vector_call =
    Call_add "'a option"
  | Call_add_index int "'a option"
  | Call_addElement "'a option"
  | Call_addAll "'a addAll_arg"
  | Call_addAll_index int "'a addAll_arg"
  | Call_clear
  | Call_ensureCapacity int
  | Call_remove_int int
  | Call_remove_obj "'a option"
  | Call_removeElement "'a option"
  | Call_removeElementAt int
  | Call_removeAllElements
  | Call_removeAll "'a option list"
  | Call_removeIf "'a option \<Rightarrow> bool"
  | Call_replaceAll "'a option \<Rightarrow> 'a option"
  | Call_retainAll "'a option list"
  | Call_set int "'a option"
  | Call_setElementAt "'a option" int
  | Call_setSize int
  | Call_sort "'a option \<Rightarrow> int"
  | Call_trimToSize
  | Call_push "'a option"
  | Call_pop

fun state_after :: "'a Vector_call \<Rightarrow> 'a Vector \<Rightarrow> 'a Vector" where
  "state_after (Call_add e) v = snd (Vector_add e v)"
| "state_after (Call_add_index i e) v = snd (Vector_add_index i e v)"
| "state_after (Call_addElement e) v = snd (Vector_addElement e v)"
| "state_after (Call_addAll c) v = snd (Vector_addAll c v)"
| "state_after (Call_addAll_index i c) v = snd (Vector_addAll_index i c v)"
| "state_after Call_clear v = snd (Vector_clear v)"
| "state_after (Call_ensureCapacity m) v = snd (Vector_ensureCapacity m v)"
| "state_after (Call_remove_int i) v = snd (Vector_remove_int i v)"
| "state_after (Call_remove_obj x) v = snd (Vector_remove_obj x v)"
| "state_after (Call_removeElement x) v = snd (Vector_removeElement x v)"
| "state_after (Call_removeElementAt i) v = snd (Vector_removeElementAt i v)"
| "state_after Call_removeAllElements v = snd (Vector_removeAllElements v)"
| "state_after (Call_removeAll c) v = snd (Vector_removeAll c v)"
| "state_after (Call_removeIf p) v = snd (Vector_removeIf p v)"
| "state_after (Call_replaceAll f) v = snd (Vector_replaceAll f v)"
| "state_after (Call_retainAll c) v = snd (Vector_retainAll c v)"
| "state_after (Call_set i e) v = snd (Vector_set i e v)"
| "state_after (Call_setElementAt e i) v = snd (Vector_setElementAt e i v)"
| "state_after (Call_setSize n) v = snd (Vector_setSize n v)"
| "state_after (Call_sort k) v = snd (Vector_sort k v)"
| "state_after Call_trimToSize v = snd (Vector_trimToSize v)"
| "state_after (Call_push e) v = snd (Stack_push e v)"
| "state_after Call_pop v = snd (Stack_pop v)"

fun after_calls :: "'a Vector_call list \<Rightarrow> 'a Vector \<Rightarrow> 'a Vector" where
  "after_calls [] v = v"
| "after_calls (c # cs) v = after_calls cs (state_after c v)"

lemma vec_inv_init: "vec_inv (Vector_init args)"
  by (cases args) (simp_all add: vec_inv_def capacity_def)

lemma vec_inv_state_after: "vec_inv v \<Longrightarrow> vec_inv (state_after c v)"
proof (cases c)
qed (simp_all add: keepsD [OF keeps_add] keepsD [OF keeps_add_index]
    keepsD [OF keeps_addElement] keepsD [OF keeps_addAll] keepsD [OF keeps_addAll_index]
    keepsD [OF keeps_clear] keepsD [OF keeps_ensureCapacity] keepsD [OF keeps_removeAt]
    keepsD [OF keeps_removeElement] keepsD [OF keeps_removeAll] keepsD [OF keeps_removeIf]
    keepsD [OF keeps_replaceAll] keepsD [OF keeps_retainAll] keepsD [OF keeps_set]
    keepsD [OF keeps_setElementAt] keepsD [OF keeps_setSize] keepsD [OF keeps_sort]
    keepsD [OF keeps_trimToSize] keepsD [OF keeps_Stack_push] keepsD [OF keeps_Stack_pop]
    Vector_remove_int_def Vector_remove_obj_def Vector_removeElementAt_def
    Vector_removeAllElements_def)

lemma vec_inv_after_calls: "vec_inv v \<Longrightarrow> vec_inv (after_calls cs v)"
  by (induction cs arbitrary: v) (simp_all add: vec_inv_state_after)

text \<open>
  Starting from a constructor call of one of the four shapes that select a branch of
  \<open>__init__\<close>, and after any finite sequence of calls of the mutating methods,
  \<open>0 \<le> elementCount \<le> len(elementData)\<close>. A call that raises counts: \<open>state_after\<close> keeps
  the state the exception leaves. Every prefix of a sequence is a sequence, so the bound
  holds after each single call.
\<close>

lemma count_within_buffer_after_branch:
  "0 \<le> elementCount (after_calls calls (Vector_init args))
   \<and> elementCount (after_calls calls (Vector_init args))
       \<le> int (length (elementData (after_calls calls (Vector_init args))))"
  using vec_inv_after_calls [OF vec_inv_init, of calls args]
  by (simp add: vec_inv_def capacity_def)

text \<open>
  The bound as a property of an instance: it has the attributes, and they satisfy the
  bound.
\<close>

definition count_within_buffer :: "'a Vector option \<Rightarrow> bool" where
  "count_within_buffer inst =
     (case inst of
        None \<Rightarrow> False
      | Some v \<Rightarrow> 0 \<le> elementCount v \<and> elementCount v \<le> int (length (elementData v)))"

lemma count_within_buffer_accepted:
  "count_within_buffer (map_option (after_calls calls) (Vector_construct (Accepted args)))"
  using count_within_buffer_after_branch [of calls args]
  by (simp add: count_within_buffer_def Vector_construct_def)

text \<open>
  C8. The invariant \<open>0 \<le> elementCount \<le> len(elementData)\<close> after every call, construction
  included, fails at construction: \<open>Vector([1, 2, 3])\<close>, whose argument is a plain list,
  selects no branch of \<open>__init__\<close> and returns normally an instance that has neither
  \<open>elementData\<close> nor \<open>elementCount\<close>, so the bound does not hold of it and \<open>size()\<close> raises
  AttributeError. For the four shapes that select a branch the bound holds after every
  sequence of calls (\<open>count_within_buffer_accepted\<close>).
\<close>

theorem Vector_construct_other_args_no_buffer:
  "Vector_construct (OtherArgs :: int Vector_argv) = None
   \<and> \<not> count_within_buffer (Vector_construct (OtherArgs :: int Vector_argv))
   \<and> Vector_size_instance (Vector_construct (OtherArgs :: int Vector_argv))
       = Inl (no_attribute ''Vector'' ''elementCount'')"
  by (simp add: Vector_construct_def count_within_buffer_def Vector_size_instance_def)

section \<open>Construction from a capacity, and accessors of empty containers\<close>

text \<open>\<open>Vector(n)\<close> is empty whatever \<open>n\<close> is: only the buffer depends on it.\<close>

lemma Vector_init_capacity_empty:
  "Vector_size (Vector_init (InitialCapacity n)) = 0
   \<and> Vector_isEmpty (Vector_init (InitialCapacity n))
   \<and> Vector_toArray (Vector_init (InitialCapacity n)) = []
   \<and> Vector_get j (Vector_init (InitialCapacity n))
       = (Inl (IndexError ''Index out of bounds.''), Vector_init (InitialCapacity n))"
  by (auto simp: Vector_size_def Vector_isEmpty_def Vector_toArray_def py_slice_to_def
      Vector_get_def praise_def)

text \<open>
  C4. The constructor documents its integer argument as an initial capacity of an empty
  deque, but the integer branch fills \<open>_deque\<close> itself with that many \<open>None\<close>: every
  method reads \<open>_deque\<close> as the contents, so \<open>ArrayDeque(3)\<close> has size 3, is not empty,
  contains \<open>None\<close>, and \<open>pollFirst()\<close> removes one of its three \<open>None\<close> entries.
\<close>

theorem ArrayDeque_init_int_not_empty:
  "ArrayDeque_size (ArrayDeque_init (InitialInt 3) :: int ArrayDeque) = 3
   \<and> \<not> ArrayDeque_isEmpty (ArrayDeque_init (InitialInt 3) :: int ArrayDeque)
   \<and> ArrayDeque_contains None (ArrayDeque_init (InitialInt 3) :: int ArrayDeque)
   \<and> ArrayDeque_pollFirst (ArrayDeque_init (InitialInt 3) :: int ArrayDeque)
       = (Inr None, \<lparr>deque = [None, None], capacity_attr = Some 3\<rparr>)"
  by (simp add: ArrayDeque_size_def ArrayDeque_isEmpty_def ArrayDeque_contains_def
      ArrayDeque_pollFirst_def numeral_3_eq_3)

text \<open>
  C9. On a container with no element, \<open>Stack.peek\<close>, \<open>Stack.pop\<close>, the deque's
  \<open>element\<close>, \<open>getFirst\<close>, \<open>getLast\<close> and the priority queue's \<open>element\<close> raise (an
  IndexError whose message says the container is empty, the code's form of the
  empty-collection error) and leave the container as it is, while \<open>peekFirst\<close>,
  \<open>peekLast\<close>, \<open>peek\<close>, \<open>poll\<close>, \<open>pollFirst\<close>, \<open>pollLast\<close> of the deque and \<open>peek\<close>,
  \<open>poll\<close> of the priority queue return \<open>None\<close> without raising.
\<close>

theorem empty_container_accessors:
  assumes "Vector_size v = 0" "ArrayDeque_size d = 0" "PriorityQueue_size q = 0"
  shows "Stack_peek v = (Inl (IndexError ''peek from empty stack''), v)
       \<and> Stack_pop v = (Inl (IndexError ''pop from empty stack''), v)
       \<and> ArrayDeque_element d = (Inl (IndexError ''Deque is empty''), d)
       \<and> ArrayDeque_getFirst d = (Inl (IndexError ''Deque is empty''), d)
       \<and> ArrayDeque_getLast d = (Inl (IndexError ''Deque is empty''), d)
       \<and> PriorityQueue_element q = (Inl (IndexError ''Queue is empty''), q)
       \<and> ArrayDeque_peekFirst d = (Inr None, d)
       \<and> ArrayDeque_peekLast d = (Inr None, d)
       \<and> ArrayDeque_peek d = (Inr None, d)
       \<and> ArrayDeque_poll d = (Inr None, d)
       \<and> ArrayDeque_pollFirst d = (Inr None, d)
       \<and> ArrayDeque_pollLast d = (Inr None, d)
       \<and> PriorityQueue_peek q = (Inr None, q)
       \<and> PriorityQueue_poll q = (Inr None, q)"
proof -
  have v: "Stack_empty v" using assms(1) by (simp add: Vector_size_def Stack_empty_def)
  have d: "deque d = []" using assms(2) by (simp add: ArrayDeque_size_def)
  have q: "PriorityQueue_isEmpty q"
    using assms(3) by (cases q) (simp_all add: PriorityQueue_size_def PriorityQueue_isEmpty_def)
  show ?thesis
    using v d q
    by (simp add: Stack_peek_def Stack_pop_def ArrayDeque_element_def ArrayDeque_getFirst_def
        ArrayDeque_getLast_def PriorityQueue_element_def ArrayDeque_peekFirst_def
        ArrayDeque_peekLast_def ArrayDeque_peek_def ArrayDeque_poll_def
        ArrayDeque_pollFirst_def ArrayDeque_pollLast_def PriorityQueue_peek_def
        PriorityQueue_poll_def praise_def pret_def)
qed

theorem empty_container_accessors_witness:
  "Vector_size (Stack_init :: int Vector) = 0
   \<and> ArrayDeque_size (ArrayDeque_init InitialNone :: int ArrayDeque) = 0
   \<and> PriorityQueue_size (PriorityQueue_init None None :: (int, int) PriorityQueue) = 0
   \<and> Stack_pop (Stack_init :: int Vector)
       = (Inl (IndexError ''pop from empty stack''), Stack_init)
   \<and> ArrayDeque_getFirst (ArrayDeque_init InitialNone :: int ArrayDeque)
       = (Inl (IndexError ''Deque is empty''), ArrayDeque_init InitialNone)
   \<and> ArrayDeque_pollLast (ArrayDeque_init InitialNone :: int ArrayDeque)
       = (Inr None, ArrayDeque_init InitialNone)
   \<and> PriorityQueue_poll (PriorityQueue_init None None :: (int, int) PriorityQueue)
       = (Inr None, PriorityQueue_init None None)
   \<and> PriorityQueue_element (PriorityQueue_init None None :: (int, int) PriorityQueue)
       = (Inl (IndexError ''Queue is empty''), PriorityQueue_init None None)"
proof -
  have a: "Vector_size (Stack_init :: int Vector) = 0"
    by (simp add: Vector_size_def Stack_init_def)
  have b: "ArrayDeque_size (ArrayDeque_init InitialNone :: int ArrayDeque) = 0"
    by (simp add: ArrayDeque_size_def)
  have c: "PriorityQueue_size (PriorityQueue_init None None :: (int, int) PriorityQueue) = 0"
    by (simp add: PriorityQueue_size_def PriorityQueue_init_def)
  show ?thesis using a b c empty_container_accessors [OF a b c] by simp
qed

section \<open>heapq keeps the heap order\<close>

text \<open>
  The heap order on a list: every entry is at least its parent, the entry at
  \<open>(c - 1) div 2\<close>. \<open>heap_from s\<close> asks this only of the entries whose parent is at \<open>s\<close> or
  later, which is what \<open>heapify\<close> has established after treating position \<open>s\<close>;
  \<open>anc s p\<close> says that \<open>s\<close> is \<open>p\<close> or one of its ancestors.
\<close>

definition parent :: "nat \<Rightarrow> nat" where
  "parent c = (c - 1) div 2"

definition heap_from :: "nat \<Rightarrow> 'b::linorder list \<Rightarrow> bool" where
  "heap_from s xs = (\<forall>c. 0 < c \<and> c < length xs \<and> s \<le> parent c \<longrightarrow> xs ! parent c \<le> xs ! c)"

definition is_heap :: "'b::linorder list \<Rightarrow> bool" where
  "is_heap xs = heap_from 0 xs"

definition anc :: "nat \<Rightarrow> nat \<Rightarrow> bool" where
  "anc s p = (\<exists>k. (parent ^^ k) p = s)"

lemma parent_less: "0 < c \<Longrightarrow> parent c < c"
  by (simp add: parent_def)

lemma parent_le: "parent c \<le> c"
  by (simp add: parent_def)

lemma parent_child: "0 < c \<Longrightarrow> parent c = p \<longleftrightarrow> c = 2 * p + 1 \<or> c = 2 * p + 2"
  by (auto simp: parent_def)

lemma funpow_parent_le: "(parent ^^ k) p \<le> p"
proof (induction k)
  case 0
  show ?case by simp
next
  case (Suc k)
  have "(parent ^^ Suc k) p = parent ((parent ^^ k) p)" by simp
  also have "\<dots> \<le> (parent ^^ k) p" by (rule parent_le)
  finally show ?case using Suc by simp
qed

lemma anc_refl: "anc s s"
  unfolding anc_def by (rule exI [of _ 0]) simp

lemma anc_le: "anc s p \<Longrightarrow> s \<le> p"
  unfolding anc_def using funpow_parent_le by auto

lemma anc_parent:
  assumes "anc s p" "s < p"
  shows "anc s (parent p)"
proof -
  obtain k where k: "(parent ^^ k) p = s" using assms(1) by (auto simp: anc_def)
  with assms(2) obtain j where "k = Suc j" by (cases k) auto
  with k have "(parent ^^ j) (parent p) = s" by (simp add: funpow_swap1)
  then show ?thesis by (auto simp: anc_def)
qed

lemma anc_child: "anc s p \<Longrightarrow> parent c = p \<Longrightarrow> anc s c"
proof -
  assume a: "anc s p" "parent c = p"
  then obtain k where "(parent ^^ k) p = s" by (auto simp: anc_def)
  with a(2) have "(parent ^^ Suc k) c = s" by (simp add: funpow_swap1)
  then show ?thesis unfolding anc_def by blast
qed

lemma anc_zero: "anc 0 p"
proof (induction p rule: less_induct)
  case (less p)
  show ?case
  proof (cases "p = 0")
    case True
    then show ?thesis by (simp add: anc_refl)
  next
    case False
    then have "anc 0 (parent p)" using less parent_less by simp
    then show ?thesis by (rule anc_child) simp
  qed
qed


text \<open>
  The loop of \<open>_siftdown\<close> carries a hole at \<open>pos\<close>, to be filled with \<open>x\<close>. \<open>sd_inv\<close> is
  its invariant: with \<open>x\<close> in the hole the order holds everywhere except between the hole
  and its parent, and the hole's parent is at most the hole's children.
\<close>

definition sd_inv :: "nat \<Rightarrow> 'b::linorder \<Rightarrow> 'b list \<Rightarrow> nat \<Rightarrow> bool" where
  "sd_inv s x heap pos =
     (pos < length heap \<and> anc s pos
      \<and> (\<forall>c. 0 < c \<and> c < length heap \<and> c \<noteq> pos \<and> s \<le> parent c \<longrightarrow>
              heap[pos := x] ! parent c \<le> heap[pos := x] ! c)
      \<and> (s < pos \<longrightarrow>
           (\<forall>c. 0 < c \<and> c < length heap \<and> parent c = pos \<longrightarrow>
                heap[pos := x] ! parent pos \<le> heap ! c)))"

lemma sd_step:
  assumes inv: "sd_inv s x heap pos" and sp: "s < pos" and lt: "x < heap ! parent pos"
  shows "sd_inv s x (heap[pos := heap ! parent pos]) (parent pos)"
proof -
  define pp where "pp = parent pos"
  define P where "P = heap ! pp"
  define h where "h = heap[pos := x]"
  define h2 where "h2 = heap[pos := P, pp := x]"
  have pos: "pos < length heap" "anc s pos" using inv by (auto simp: sd_inv_def)
  have pp: "pp < pos" "s \<le> pp" "anc s pp" "pp < length heap"
    using sp pos parent_less [of pos] anc_parent [OF pos(2) sp] anc_le [of s "parent pos"]
    by (auto simp: pp_def)
  have part1: "\<And>c. 0 < c \<Longrightarrow> c < length heap \<Longrightarrow> c \<noteq> pos \<Longrightarrow> s \<le> parent c \<Longrightarrow>
      h ! parent c \<le> h ! c"
    using inv by (auto simp: sd_inv_def h_def)
  have part2: "\<And>c. 0 < c \<Longrightarrow> c < length heap \<Longrightarrow> parent c = pos \<Longrightarrow> h ! pp \<le> heap ! c"
    using inv sp by (auto simp: sd_inv_def h_def pp_def)
  have hpp: "h ! pp = P" using pp by (simp add: h_def P_def)
  have xP: "x < P" using lt by (simp add: P_def pp_def)
  have h2_pos: "h2 ! pos = P" using pp pos by (simp add: h2_def)
  have h2_pp: "h2 ! pp = x" using pp by (simp add: h2_def)
  have h2_other: "\<And>i. i \<noteq> pos \<Longrightarrow> i \<noteq> pp \<Longrightarrow> h2 ! i = heap ! i" by (simp add: h2_def)
  have h_other: "\<And>i. i \<noteq> pos \<Longrightarrow> h ! i = heap ! i" by (simp add: h_def)
  have g1: "h2 ! parent c \<le> h2 ! c"
    if c: "0 < c" "c < length heap" "c \<noteq> pp" "s \<le> parent c" for c
  proof (cases "c = pos")
    case True
    then show ?thesis using h2_pos h2_pp xP by (simp add: pp_def)
  next
    case cpos: False
    consider "parent c = pos" | "parent c = pp" | "parent c \<noteq> pos" "parent c \<noteq> pp" by blast
    then show ?thesis
    proof cases
      case 1
      have "h ! pp \<le> heap ! c" using part2 c 1 by simp
      then show ?thesis using 1 h2_pos hpp h2_other [of c] cpos c(3) by simp
    next
      case 2
      have "h ! pp \<le> h ! c" using part1 [of c] c cpos 2 by simp
      then show ?thesis using 2 h2_pp hpp xP h2_other [of c] h_other [of c] cpos c(3) by simp
    next
      case 3
      have "h ! parent c \<le> h ! c" using part1 [of c] c cpos by simp
      then show ?thesis
        using 3 h2_other [of c] h2_other [of "parent c"] h_other [of c] h_other [of "parent c"]
          cpos c(3) by simp
    qed
  qed
  have g2: "h2 ! parent pp \<le> heap[pos := P] ! c"
    if spp: "s < pp" and c: "0 < c" "c < length heap" "parent c = pp" for c
  proof -
    define gp where "gp = parent pp"
    have gp: "gp < pp" "s \<le> gp"
      using spp parent_less [of pp] anc_parent [OF pp(3) spp] anc_le [of s "parent pp"]
      by (auto simp: gp_def)
    have hgp: "h2 ! gp = h ! gp" using gp pp h2_other [of gp] h_other [of gp] by simp
    have le1: "h ! gp \<le> h ! pp" using part1 [of pp] spp pp gp by (simp add: gp_def)
    show ?thesis
    proof (cases "c = pos")
      case True
      then show ?thesis using le1 hgp hpp pos by (simp add: gp_def)
    next
      case False
      have "h ! pp \<le> h ! c" using part1 [of c] c False pp by simp
      then show ?thesis using le1 hgp False h_other [of c] by (simp add: gp_def)
    qed
  qed
  have "h2 = (heap[pos := heap ! parent pos])[parent pos := x]"
    by (simp add: h2_def P_def pp_def)
  then show ?thesis
    using pp g1 g2 unfolding sd_inv_def by (simp add: pp_def P_def)
qed

lemma sd_exit:
  assumes inv: "sd_inv s x heap pos" and stop: "\<not> s < pos \<or> \<not> x < heap ! parent pos"
  shows "heap_from s (heap[pos := x])"
  unfolding heap_from_def
proof (intro allI impI)
  fix c assume c: "0 < c \<and> c < length (heap[pos := x]) \<and> s \<le> parent c"
  have pos: "pos < length heap" using inv by (simp add: sd_inv_def)
  show "heap[pos := x] ! parent c \<le> heap[pos := x] ! c"
  proof (cases "c = pos")
    case False
    then show ?thesis using inv c by (simp add: sd_inv_def)
  next
    case True
    then have "s < pos" using c parent_less [of c] by simp
    then have "heap ! parent pos \<le> x" using stop by simp
    then show ?thesis using True pos c parent_less [of c] by simp
  qed
qed

lemma swap_update_mset:
  assumes "pos < length heap" "pp < length heap" "pp \<noteq> pos"
  shows "mset (heap[pos := heap ! pp, pp := x]) = mset (heap[pos := x])"
proof -
  let ?h = "heap[pos := x]"
  have a: "?h ! pp = heap ! pp" "?h ! pos = x" using assms by simp_all
  have "?h[pos := ?h ! pp, pp := ?h ! pos] = heap[pos := heap ! pp, pp := x]"
    unfolding a by simp
  moreover have "mset (?h[pos := ?h ! pp, pp := ?h ! pos]) = mset ?h"
    using mset_swap [of pp ?h pos] assms by simp
  ultimately show ?thesis by simp
qed

lemma siftdown_while_correct:
  "sd_inv s x heap pos \<Longrightarrow>
   (case siftdown_while x s heap pos of
      (h', p') \<Rightarrow> heap_from s (h'[p' := x]) \<and> mset (h'[p' := x]) = mset (heap[pos := x])
                  \<and> length h' = length heap)"
proof (induction x s heap pos rule: siftdown_while.induct)
  case (1 newitem startpos heap pos)
  show ?case
  proof (cases "startpos < pos \<and> newitem < heap ! parent pos")
    case True
    let ?heap2 = "heap[pos := heap ! parent pos]"
    have inv2: "sd_inv startpos newitem ?heap2 (parent pos)"
      using sd_step [OF "1.prems"] True by simp
    have ih: "case siftdown_while newitem startpos ?heap2 (parent pos) of
      (h', p') \<Rightarrow> heap_from startpos (h'[p' := newitem])
                  \<and> mset (h'[p' := newitem]) = mset (?heap2[parent pos := newitem])
                  \<and> length h' = length ?heap2"
      using "1.IH" [of "(pos - 1) div 2" "heap ! ((pos - 1) div 2)"] True inv2
      by (simp add: parent_def)
    have pos: "pos < length heap" using "1.prems" by (simp add: sd_inv_def)
    have pp: "parent pos < length heap" "parent pos \<noteq> pos"
      using pos True parent_less [of pos] by auto
    have ms: "mset (?heap2[parent pos := newitem]) = mset (heap[pos := newitem])"
      using swap_update_mset [OF pos pp] .
    have unf: "siftdown_while newitem startpos heap pos
        = siftdown_while newitem startpos ?heap2 (parent pos)"
      using True by (subst siftdown_while.simps) (simp add: parent_def Let_def)
    show ?thesis using ih ms unfolding unf by (auto split: prod.splits)
  next
    case False
    then have unf: "siftdown_while newitem startpos heap pos = (heap, pos)"
      by (subst siftdown_while.simps) (auto simp: parent_def Let_def)
    have "heap_from startpos (heap[pos := newitem])"
      using sd_exit [OF "1.prems"] False by blast
    then show ?thesis unfolding unf by simp
  qed
qed


lemma sd_inv_update:
  assumes "sd_inv s x heap pos"
  shows "sd_inv s x (heap[pos := x]) pos"
  unfolding sd_inv_def
proof (intro conjI allI impI)
  show "pos < length (heap[pos := x])" "anc s pos" using assms by (simp_all add: sd_inv_def)
next
  fix c assume "0 < c \<and> c < length (heap[pos := x]) \<and> c \<noteq> pos \<and> s \<le> parent c"
  then show "heap[pos := x, pos := x] ! parent c \<le> heap[pos := x, pos := x] ! c"
    using assms by (simp add: sd_inv_def)
next
  fix c assume sp: "s < pos" and c: "0 < c \<and> c < length (heap[pos := x]) \<and> parent c = pos"
  then have "c \<noteq> pos" using parent_less [of c] by auto
  moreover have "heap[pos := x] ! parent pos \<le> heap ! c"
    using assms sp c by (simp add: sd_inv_def)
  ultimately show "heap[pos := x, pos := x] ! parent pos \<le> heap[pos := x] ! c" by simp
qed

lemma siftdown_correct:
  assumes "sd_inv s x heap pos"
  shows "heap_from s (siftdown (heap[pos := x]) s pos)"
    and "mset (siftdown (heap[pos := x]) s pos) = mset (heap[pos := x])"
    and "length (siftdown (heap[pos := x]) s pos) = length heap"
proof -
  have pos: "pos < length heap" using assms by (simp add: sd_inv_def)
  have inv': "sd_inv s x (heap[pos := x]) pos"
    using assms by (rule sd_inv_update)
  obtain h' p' where w: "siftdown_while x s (heap[pos := x]) pos = (h', p')"
    by (cases "siftdown_while x s (heap[pos := x]) pos")
  have r: "heap_from s (h'[p' := x])" "mset (h'[p' := x]) = mset (heap[pos := x])"
    "length h' = length heap"
    using siftdown_while_correct [OF inv'] w by simp_all
  have sd: "siftdown (heap[pos := x]) s pos = h'[p' := x]"
    using pos w by (simp add: siftdown_def)
  show "heap_from s (siftdown (heap[pos := x]) s pos)"
    and "mset (siftdown (heap[pos := x]) s pos) = mset (heap[pos := x])"
    and "length (siftdown (heap[pos := x]) s pos) = length heap"
    using r sd by simp_all
qed

text \<open>
  The first loop of \<open>_siftup\<close> moves the hole down along smaller children. \<open>su_inv\<close>: the
  order holds between all entries other than the hole, and the hole's parent is at most
  the hole's children.
\<close>

definition su_inv :: "nat \<Rightarrow> 'b::linorder list \<Rightarrow> nat \<Rightarrow> bool" where
  "su_inv s heap pos =
     (pos < length heap \<and> anc s pos
      \<and> (\<forall>c. 0 < c \<and> c < length heap \<and> c \<noteq> pos \<and> parent c \<noteq> pos \<and> s \<le> parent c \<longrightarrow>
              heap ! parent c \<le> heap ! c)
      \<and> (s < pos \<longrightarrow>
           (\<forall>c. 0 < c \<and> c < length heap \<and> parent c = pos \<longrightarrow>
                heap ! parent pos \<le> heap ! c)))"

lemma su_step:
  assumes inv: "su_inv s heap pos"
    and child: "2 * pos + 1 < length heap"
    and cp: "cp = (if 2 * pos + 2 < length heap \<and> \<not> heap ! (2 * pos + 1) < heap ! (2 * pos + 2)
                   then 2 * pos + 2 else 2 * pos + 1)"
  shows "su_inv s (heap[pos := heap ! cp]) cp"
proof -
  let ?h2 = "heap[pos := heap ! cp]"
  have pos: "pos < length heap" "anc s pos" "s \<le> pos"
    using inv anc_le [of s pos] by (auto simp: su_inv_def)
  have cpf: "cp < length heap" "parent cp = pos" "pos < cp" "0 < cp"
    using child cp by (auto simp: parent_def)
  have small: "\<And>c. 0 < c \<Longrightarrow> c < length heap \<Longrightarrow> parent c = pos \<Longrightarrow> heap ! cp \<le> heap ! c"
  proof -
    fix c assume c: "0 < c" "c < length heap" "parent c = pos"
    then have "c = 2 * pos + 1 \<or> c = 2 * pos + 2" using parent_child [of c pos] by simp
    then show "heap ! cp \<le> heap ! c" using c cp by (auto simp: not_less)
  qed
  have part1: "\<And>c. 0 < c \<Longrightarrow> c < length heap \<Longrightarrow> c \<noteq> pos \<Longrightarrow> parent c \<noteq> pos \<Longrightarrow>
      s \<le> parent c \<Longrightarrow> heap ! parent c \<le> heap ! c"
    using inv by (auto simp: su_inv_def)
  have part2: "\<And>c. s < pos \<Longrightarrow> 0 < c \<Longrightarrow> c < length heap \<Longrightarrow> parent c = pos \<Longrightarrow>
      heap ! parent pos \<le> heap ! c"
    using inv by (auto simp: su_inv_def)
  have g1: "?h2 ! parent c \<le> ?h2 ! c"
    if c: "0 < c" "c < length heap" "c \<noteq> cp" "parent c \<noteq> cp" "s \<le> parent c" for c
  proof (cases "c = pos")
    case True
    then have sp: "s < pos" using c parent_less [of c] by simp
    have "heap ! parent pos \<le> heap ! cp" using part2 [OF sp cpf(4) cpf(1) cpf(2)] .
    moreover have "parent pos \<noteq> pos" using True c parent_less [of c] by simp
    ultimately show ?thesis using True pos by simp
  next
    case cpos: False
    show ?thesis
    proof (cases "parent c = pos")
      case True
      have "heap ! cp \<le> heap ! c" using small c True by simp
      then show ?thesis using True cpos pos by simp
    next
      case False
      have "heap ! parent c \<le> heap ! c" using part1 [of c] c cpos False by simp
      then show ?thesis using False cpos by simp
    qed
  qed
  have g2: "?h2 ! parent cp \<le> ?h2 ! c"
    if c: "0 < c" "c < length heap" "parent c = cp" for c
  proof -
    have "c \<noteq> pos" "c \<noteq> cp" using c cpf parent_less [of c] by auto
    moreover have "heap ! cp \<le> heap ! c"
      using part1 [of c] c cpf pos \<open>c \<noteq> pos\<close> by simp
    ultimately show ?thesis using cpf pos by simp
  qed
  show ?thesis
    unfolding su_inv_def
    using cpf pos anc_child [OF pos(2) cpf(2)] g1 g2 by simp
qed

lemma su_exit:
  assumes inv: "su_inv s heap pos" and leaf: "\<not> 2 * pos + 1 < length heap"
  shows "sd_inv s x heap pos"
proof -
  have nochild: "parent c \<noteq> pos" if c: "0 < c" "c < length heap" for c
  proof
    assume "parent c = pos"
    then have "c = 2 * pos + 1 \<or> c = 2 * pos + 2" using parent_child [of c pos] c by simp
    then show False using c leaf by auto
  qed
  have pos: "pos < length heap" "anc s pos" using inv by (simp_all add: su_inv_def)
  have g1: "heap[pos := x] ! parent c \<le> heap[pos := x] ! c"
    if c: "0 < c" "c < length heap" "c \<noteq> pos" "s \<le> parent c" for c
  proof -
    have "heap ! parent c \<le> heap ! c"
      using inv c nochild [of c] unfolding su_inv_def by blast
    then show ?thesis using c nochild [of c] by simp
  qed
  show ?thesis
    unfolding sd_inv_def
  proof (intro conjI allI impI)
    show "pos < length heap" "anc s pos" using pos by simp_all
  next
    fix c assume "0 < c \<and> c < length heap \<and> c \<noteq> pos \<and> s \<le> parent c"
    then show "heap[pos := x] ! parent c \<le> heap[pos := x] ! c" using g1 by blast
  next
    fix c assume "s < pos" "0 < c \<and> c < length heap \<and> parent c = pos"
    then show "heap[pos := x] ! parent pos \<le> heap ! c" using nochild [of c] by blast
  qed
qed


lemma siftup_while_correct:
  "su_inv s heap pos \<Longrightarrow>
   (case siftup_while heap pos of
      (h', p') \<Rightarrow> (\<forall>x. sd_inv s x h' p') \<and> length h' = length heap
                  \<and> (\<forall>x. mset (h'[p' := x]) = mset (heap[pos := x])))"
proof (induction heap pos rule: siftup_while.induct)
  case (1 heap pos)
  show ?case
  proof (cases "2 * pos + 1 < length heap")
    case True
    define cp where "cp = (if 2 * pos + 1 + 1 < length heap
                              \<and> \<not> heap ! (2 * pos + 1) < heap ! (2 * pos + 1 + 1)
                           then 2 * pos + 1 + 1 else 2 * pos + 1)"
    have cp2: "cp = (if 2 * pos + 2 < length heap
                              \<and> \<not> heap ! (2 * pos + 1) < heap ! (2 * pos + 2)
                           then 2 * pos + 2 else 2 * pos + 1)"
      unfolding cp_def by simp
    let ?heap2 = "heap[pos := heap ! cp]"
    have inv2: "su_inv s ?heap2 cp" using su_step [OF "1.prems" True cp2] .
    have unf: "siftup_while heap pos = siftup_while ?heap2 cp"
      using True by (subst siftup_while.simps) (simp only: Let_def cp_def if_True)
    have ih: "case siftup_while ?heap2 cp of
      (h', p') \<Rightarrow> (\<forall>x. sd_inv s x h' p') \<and> length h' = length ?heap2
                  \<and> (\<forall>x. mset (h'[p' := x]) = mset (?heap2[cp := x]))"
      using "1.IH" [OF refl refl True refl cp_def inv2] .
    have pos: "pos < length heap" using "1.prems" by (simp add: su_inv_def)
    have cpf: "cp < length heap" "cp \<noteq> pos" using True by (auto simp: cp2)
    have ms: "\<And>x. mset (?heap2[cp := x]) = mset (heap[pos := x])"
      using swap_update_mset [OF pos cpf] .
    obtain h' p' where r: "siftup_while ?heap2 cp = (h', p')"
      by (cases "siftup_while ?heap2 cp")
    have a: "\<forall>x. sd_inv s x h' p'" and b: "length h' = length heap"
      and c: "\<forall>x. mset (h'[p' := x]) = mset (?heap2[cp := x])"
      using ih r by simp_all
    have c': "\<forall>x. mset (h'[p' := x]) = mset (heap[pos := x])"
      using c ms by simp
    show ?thesis unfolding unf r using a b c' by simp
  next
    case False
    then have unf: "siftup_while heap pos = (heap, pos)"
      by (subst siftup_while.simps) (simp add: Let_def)
    show ?thesis unfolding unf using su_exit [OF "1.prems" False] by simp
  qed
qed

lemma siftup_correct:
  assumes "heap_from (Suc s) heap" "s < length heap"
  shows "heap_from s (siftup heap s)"
    and "mset (siftup heap s) = mset heap"
    and "length (siftup heap s) = length heap"
proof -
  have inv: "su_inv s heap s"
    unfolding su_inv_def
  proof (intro conjI allI impI)
    show "s < length heap" by fact
    show "anc s s" by (rule anc_refl)
  next
    fix c assume c: "0 < c \<and> c < length heap \<and> c \<noteq> s \<and> parent c \<noteq> s \<and> s \<le> parent c"
    then have "Suc s \<le> parent c" by simp
    then show "heap ! parent c \<le> heap ! c" using assms(1) c by (simp add: heap_from_def)
  next
    fix c assume "s < s"
    then show "heap ! parent s \<le> heap ! c" by simp
  qed
  obtain h' p' where w: "siftup_while heap s = (h', p')" by (cases "siftup_while heap s")
  have r: "sd_inv s (heap ! s) h' p'" "length h' = length heap"
    "mset (h'[p' := heap ! s]) = mset (heap[s := heap ! s])"
    using siftup_while_correct [OF inv] w by simp_all
  have su: "siftup heap s = siftdown (h'[p' := heap ! s]) s p'"
    using w by (simp add: siftup_def)
  show "heap_from s (siftup heap s)"
    unfolding su using siftdown_correct(1) [OF r(1)] .
  show "mset (siftup heap s) = mset heap"
    unfolding su using siftdown_correct(2) [OF r(1)] r(3) by simp
  show "length (siftup heap s) = length heap"
    unfolding su using siftdown_correct(3) [OF r(1)] r(2) by simp
qed

lemma heappush_correct:
  assumes "is_heap heap"
  shows "is_heap (heappush heap item)"
    and "mset (heappush heap item) = mset heap + {#item#}"
    and "length (heappush heap item) = Suc (length heap)"
proof -
  let ?n = "length heap"
  let ?h = "heap @ [item]"
  have upd: "?h[?n := item] = ?h" by simp
  have inv: "sd_inv 0 item ?h ?n"
    unfolding sd_inv_def upd
  proof (intro conjI allI impI)
    show "?n < length ?h" by simp
    show "anc 0 ?n" by (rule anc_zero)
  next
    fix c assume c: "0 < c \<and> c < length ?h \<and> c \<noteq> ?n \<and> 0 \<le> parent c"
    then have cn: "c < ?n" by simp
    then have "parent c < ?n" using parent_le [of c] by simp
    moreover have "heap ! parent c \<le> heap ! c"
      using assms c cn by (simp add: is_heap_def heap_from_def)
    ultimately show "?h ! parent c \<le> ?h ! c" using cn by (simp add: nth_append)
  next
    fix c assume "0 < ?n" and c: "0 < c \<and> c < length ?h \<and> parent c = ?n"
    then have "?n < c" using parent_less [of c] by simp
    then show "?h ! parent ?n \<le> ?h ! c" using c by simp
  qed
  have hp: "heappush heap item = siftdown (?h[?n := item]) 0 ?n"
    by (simp add: heappush_def)
  show "is_heap (heappush heap item)"
    unfolding hp is_heap_def using siftdown_correct(1) [OF inv] .
  show "mset (heappush heap item) = mset heap + {#item#}"
    unfolding hp using siftdown_correct(2) [OF inv] by simp
  show "length (heappush heap item) = Suc (length heap)"
    unfolding hp using siftdown_correct(3) [OF inv] by simp
qed




lemma heapify_correct:
  shows "is_heap (heapify x)" and "mset (heapify x) = mset x"
    and "length (heapify x) = length x"
proof -
  have gen: "heap_from m h \<Longrightarrow> m \<le> length h \<Longrightarrow>
      heap_from 0 (foldl siftup h (rev [0..<m])) \<and> mset (foldl siftup h (rev [0..<m])) = mset h
      \<and> length (foldl siftup h (rev [0..<m])) = length h" for m and h :: "'a list"
  proof (induction m arbitrary: h)
    case 0
    then show ?case by simp
  next
    case (Suc m)
    have ml: "m < length h" using Suc.prems by simp
    note su = siftup_correct [OF Suc.prems(1) ml]
    have "heap_from 0 (foldl siftup (siftup h m) (rev [0..<m]))
        \<and> mset (foldl siftup (siftup h m) (rev [0..<m])) = mset (siftup h m)
        \<and> length (foldl siftup (siftup h m) (rev [0..<m])) = length (siftup h m)"
      using Suc.IH [of "siftup h m"] su ml by simp
    then show ?case using su by simp
  qed
  have start: "heap_from (length x div 2) x"
    unfolding heap_from_def
  proof (intro allI impI)
    fix c assume c: "0 < c \<and> c < length x \<and> length x div 2 \<le> parent c"
    then have "False" by (auto simp: parent_def)
    then show "x ! parent c \<le> x ! c" ..
  qed
  have "length x div 2 \<le> length x" by simp
  from gen [OF start this]
  show "is_heap (heapify x)" and "mset (heapify x) = mset x"
    and "length (heapify x) = length x"
    by (simp_all add: heapify_def is_heap_def)
qed

section \<open>PriorityQueue: the order of poll, and remove\<close>

text \<open>
  What the methods keep: \<open>_heap\<close> is a heap in the sense of \<open>is_heap\<close> and, with a
  comparator, every entry is the pair of an element and its key. \<open>le_active\<close> is the
  active ordering of the elements, \<open>drain n\<close> collects the results of \<open>n\<close> successive
  \<open>poll()\<close> calls.
\<close>

definition pq_inv :: "('a::linorder, 'k::linorder) PriorityQueue \<Rightarrow> bool" where
  "pq_inv q =
     (case q of
        Natural heap \<Rightarrow> is_heap heap
      | Keyed comparator heap \<Rightarrow>
          is_heap heap \<and> list_all (\<lambda>entry. fst entry = comparator (snd entry)) heap)"

definition le_active :: "('a::linorder, 'k::linorder) PriorityQueue \<Rightarrow> 'a \<Rightarrow> 'a \<Rightarrow> bool" where
  "le_active q x y =
     (case q of
        Natural heap \<Rightarrow> x \<le> y
      | Keyed comparator heap \<Rightarrow> comparator x \<le> comparator y)"






lemma PriorityQueue_add_correct:
  assumes "pq_inv q"
  shows "\<exists>q'. PriorityQueue_add e q = (Inr True, q') \<and> pq_inv q'
              \<and> mset (held q') = mset (held q) + {#e#}
              \<and> le_active q' = le_active q"
proof (cases q)
  case (Natural heap)
  then have h: "is_heap heap" using assms by (simp add: pq_inv_def)
  note hp = heappush_correct [OF h, of e]
  show ?thesis
    using Natural hp
    by (simp add: PriorityQueue_add_def pq_inv_def held_def le_active_def fun_eq_iff)
next
  case (Keyed f heap)
  then have h: "is_heap heap" "list_all (\<lambda>entry. fst entry = f (snd entry)) heap"
    using assms by (simp_all add: pq_inv_def)
  note hp = heappush_correct [OF h(1), of "(f e, e)"]
  have "set_mset (mset (heappush heap (f e, e))) = set_mset (mset heap + {#(f e, e)#})"
    using hp(2) by simp
  then have "set (heappush heap (f e, e)) = set heap \<union> {(f e, e)}"
    by simp
  then have all: "list_all (\<lambda>entry. fst entry = f (snd entry)) (heappush heap (f e, e))"
    using h(2) by (auto simp: list_all_iff)
  have "mset (map snd (heappush heap (f e, e))) = image_mset snd (mset (heappush heap (f e, e)))"
    by simp
  also have "\<dots> = image_mset snd (mset heap + {#(f e, e)#})" using hp(2) by simp
  also have "\<dots> = mset (map snd heap) + {#e#}" by simp
  finally have "mset (map snd (heappush heap (f e, e))) = mset (map snd heap) + {#e#}" .
  then show ?thesis
    using Keyed hp all
    by (simp add: PriorityQueue_add_def pq_inv_def held_def le_active_def fun_eq_iff)
qed






lemma le_active_add: "pq_inv q \<Longrightarrow> le_active (snd (PriorityQueue_add e q)) = le_active q"
  using PriorityQueue_add_correct [of q e] by auto









text \<open>
  Without a comparator \<open>remove(o)\<close> does what its documentation says: it returns whether
  \<open>o\<close> is held, and after a removal the list is a heap of the remaining elements.
\<close>

lemma PriorityQueue_remove_natural:
  "\<exists>heap'. PriorityQueue_remove (Elem x) (Natural heap :: ('a::linorder, 'k::linorder) PriorityQueue)
             = (Inr (x \<in> set heap), Natural heap')
         \<and> (x \<in> set heap \<longrightarrow> is_heap heap' \<and> mset heap' = mset heap - {#x#})
         \<and> (x \<notin> set heap \<longrightarrow> heap' = heap)"
  by (simp add: PriorityQueue_remove_def heapify_correct)

text \<open>
  C1. With a comparator, \<open>remove(o)\<close> does not return True for a held element and
  \<open>contains(o)\<close> does not find it: \<open>_heap\<close> holds the pairs \<open>(comparator(e), e)\<close>, \<open>peek\<close> and
  \<open>poll\<close> unwrap them, but \<open>remove\<close> and \<open>contains\<close> compare \<open>o\<close> with the pairs themselves.
  For \<open>q = PriorityQueue(comparator=lambda x: -x)\<close> after \<open>q.add(5)\<close>: the queue holds 5 and
  \<open>peek()\<close> returns it, \<open>remove(5)\<close> returns False and leaves the queue as it is,
  \<open>contains(5)\<close> is False, and only the internal pair \<open>(-5, 5)\<close> is removed.
\<close>

theorem PriorityQueue_remove_misses_keyed_element:
  "(let q = snd (PriorityQueue_add 5 (PriorityQueue_init None (Some (\<lambda>x::int. - x)))) in
      held q = [5]
    \<and> PriorityQueue_peek q = (Inr (Some 5), q)
    \<and> PriorityQueue_remove (Elem 5) q = (Inr False, q)
    \<and> \<not> PriorityQueue_contains (Elem 5) q
    \<and> PriorityQueue_remove (Tuple (- 5) 5) q
        = (Inr True, PriorityQueue_init None (Some (\<lambda>x::int. - x))))"
  by (simp add: Let_def PriorityQueue_add_def PriorityQueue_init_def held_def
      PriorityQueue_peek_def PriorityQueue_isEmpty_def PriorityQueue_remove_def
      PriorityQueue_contains_def heappush_def siftdown_def heapify_def pret_def)

section \<open>Vector.retainAll\<close>

text \<open>
  C2. \<open>retainAll(c)\<close> is documented to keep exactly the members of \<open>c\<close> and to return
  whether anything was removed. The loop runs over \<open>range(elementCount)\<close> as computed at
  entry while \<open>__removeAt__\<close> shifts the later elements left and shrinks the count: on
  the vector \<open>[1, 2, 3]\<close> with \<open>c = [3]\<close> the element \<open>2\<close> slides into the slot just
  visited and is never tested, and the last index reads the cleared slot \<open>None\<close>, which is
  not in \<open>c\<close>, so \<open>__removeAt__(2)\<close> raises IndexError with \<open>[2, 3]\<close> left in the vector.
\<close>

theorem Vector_retainAll_skips_and_raises:
  "Vector_retainAll [Some (3::int)] (Vector_init (FromCollection [Some 1, Some 2, Some 3]))
   = (Inl (IndexError ''Index out of bounds.''),
      \<lparr>capacityIncrement = 0, elementData = [Some 2, Some 3, None], elementCount = 2\<rparr>)"
  by (simp add: Vector_retainAll_def Vector_removeAt_def pbind_def pthen_def pret_def
      praise_def pmodify_def read_data_def write_data_def getitem_def setitem_def py_index_def
      py_range_def py_range_down_def upto.simps)

text \<open>
  C3. The same loop breaks failure atomicity: on \<open>[1, 2]\<close> with \<open>c = [2]\<close> the call removes
  \<open>1\<close>, then raises IndexError at the second index, and the caller sees the error together
  with the changed contents \<open>[2]\<close>.
\<close>

theorem Vector_retainAll_raises_after_mutation:
  "fst (Vector_retainAll [Some (2::int)] (Vector_init (FromCollection [Some 1, Some 2])))
     = Inl (IndexError ''Index out of bounds.'')
   \<and> Vector_toArray (snd (Vector_retainAll [Some (2::int)]
                             (Vector_init (FromCollection [Some 1, Some 2])))) = [Some 2]
   \<and> Vector_toArray (Vector_init (FromCollection [Some 1, Some (2::int)])) = [Some 1, Some 2]"
  by (simp add: Vector_retainAll_def Vector_removeAt_def pbind_def pthen_def pret_def
      praise_def pmodify_def read_data_def write_data_def getitem_def setitem_def py_index_def
      py_range_def py_range_down_def upto.simps Vector_toArray_def py_slice_to_def)

end
